theory Spec2Isabelle
  imports Complex_Main "HOL-Library.Word" "HOL-Library.Log_Nat"
begin

section \<open>Common types\<close>

text \<open>
  Go errors are values.  The model distinguishes the ones the code distinguishes
  (\<open>gorm.ErrRecordNotFound\<close> against every other store failure) and keeps one
  constructor for each collaborator that can fail.
\<close>

datatype error = ErrRecordNotFound | ErrStore | ErrOS | ErrBind

text \<open>
  A \<open>time.Time\<close> is its reading of the monotonic clock in nanoseconds; a
  \<open>time.Duration\<close> is a number of nanoseconds that fits in an \<open>int64\<close>.
\<close>

type_synonym Time = int
type_synonym Duration = int

text \<open>
  A finite \<open>float64\<close> is the rational number it denotes.  Every arithmetic step of
  the source on floats is followed by \<open>f64\<close>, rounding to the nearest value with a
  53-bit significand, ties to even.  Exponent overflow and subnormal numbers are not
  modelled: the magnitudes the collector computes on (a 64-bit counter divided by a
  number of seconds between \<open>1e-9\<close> and \<open>1e10\<close>) stay far inside the normal range.
\<close>

type_synonym float64 = rat

definition pow2 :: "int \<Rightarrow> rat" where
  "pow2 e = (if 0 \<le> e then 2 ^ nat e else 1 / 2 ^ nat (- e))"

definition ilog2 :: "rat \<Rightarrow> int" where
  "ilog2 q = (let (a, b) = quotient_of \<bar>q\<bar>; k = bitlen a - bitlen b
              in if pow2 k \<le> \<bar>q\<bar> then k else k - 1)"

definition round_half_even :: "rat \<Rightarrow> int" where
  "round_half_even q = (let f = \<lfloor>q\<rfloor>; r = q - of_int f
     in if r < 1 / 2 then f else if 1 / 2 < r then f + 1 else if even f then f else f + 1)"

definition f64 :: "rat \<Rightarrow> float64" where
  "f64 q = (if q = 0 then 0
            else let e = ilog2 q - 52 in of_int (round_half_even (q / pow2 e)) * pow2 e)"

text \<open>Go's integer division and remainder truncate towards zero.\<close>

definition tdiv :: "int \<Rightarrow> int \<Rightarrow> int" where
  "tdiv a b = sgn a * sgn b * (\<bar>a\<bar> div \<bar>b\<bar>)"

definition trem :: "int \<Rightarrow> int \<Rightarrow> int" where
  "trem a b = a - b * tdiv a b"

text \<open>
  \<open>int64(f)\<close> truncates towards zero.  When the truncated value does not fit, the
  language leaves the result to the implementation: amd64 yields the minimum
  \<open>int64\<close>, arm64 saturates.
\<close>

datatype arch = amd64 | arm64

definition float64_to_int64 :: "arch \<Rightarrow> float64 \<Rightarrow> int" where
  "float64_to_int64 a x =
     (let t = sgn \<lfloor>x\<rfloor> * \<lfloor>\<bar>x\<bar>\<rfloor>
      in if - (2 ^ 63) \<le> t \<and> t < 2 ^ 63 then t
         else case a of amd64 \<Rightarrow> - (2 ^ 63)
                      | arm64 \<Rightarrow> if t < 0 then - (2 ^ 63) else 2 ^ 63 - 1)"

definition float64_of_uint64 :: "64 word \<Rightarrow> float64" where
  "float64_of_uint64 w = f64 (of_int (uint w))"

text \<open>\<open>Time.Sub\<close> saturates at the ends of \<open>Duration\<close>.\<close>

definition Sub :: "Time \<Rightarrow> Time \<Rightarrow> Duration" where
  "Sub t u = max (- (2 ^ 63)) (min (2 ^ 63 - 1) (t - u))"

text \<open>
  \<open>Duration.Seconds\<close>: \<open>sec := d / Second; nsec := d % Second;
  return float64(sec) + float64(nsec)/1e9\<close>.
\<close>

definition Seconds :: "Duration \<Rightarrow> float64" where
  "Seconds d = f64 (f64 (of_int (tdiv d 1000000000))
                    + f64 (f64 (of_int (trem d 1000000000)) / 1000000000))"

section \<open>Agent: the snapshot collector\<close>

record Snapshot =
  s_Hostname :: string
  s_LocalIP :: string
  s_GatewayIP :: string
  s_OS :: string
  s_CPUUsage :: float64
  s_MemUsage :: float64
  s_DiskUsage :: float64
  s_TCPConnections :: int
  s_UDPConnections :: int
  s_RxBytes :: int
  s_TxBytes :: int
  s_CollectedAt :: Time

record Collector =
  prevRx :: "64 word"
  prevTx :: "64 word"
  prevTime :: Time
  initialized :: bool

text \<open>\<open>NewCollector\<close> returns the zero value of the struct.\<close>

definition NewCollector :: Collector where
  "NewCollector = \<lparr>prevRx = 0, prevTx = 0, prevTime = 0, initialized = False\<rparr>"

text \<open>
  The fields of gopsutil's \<open>IOCountersStat\<close> and \<open>ConnectionStat\<close> that the agent
  or the claims refer to.
\<close>

record IOCountersStat =
  io_Name :: string
  io_BytesSent :: "64 word"
  io_BytesRecv :: "64 word"

record ConnectionStat =
  c_Family :: nat
  c_Type :: nat
  c_Status :: string

definition AF_INET :: nat where "AF_INET = 2"
definition AF_INET6 :: nat where "AF_INET6 = 10"
definition SOCK_STREAM :: nat where "SOCK_STREAM = 1"
definition SOCK_DGRAM :: nat where "SOCK_DGRAM = 2"

text \<open>
  What the operating system answers during one \<open>Collect\<close> call.  \<open>localIP\<close> and
  \<open>defaultGateway\<close> enter by their results.  The connection table holds one entry
  per socket, in whatever state; each of the two reads of it can fail on its own.
\<close>

record Host =
  h_Info :: "error + string \<times> string"
  h_GOOS :: string
  h_Hostname :: "error + string"
  h_localIP :: string
  h_defaultGateway :: string
  h_cpuPercent :: "error + float64 list"
  h_VirtualMemory :: "error + float64"
  h_Partitions :: "error + string list"
  h_diskUsage :: "string \<Rightarrow> error + float64"
  h_connTable :: "ConnectionStat list"
  h_connErr :: "string \<Rightarrow> error option"
  h_IOCounters :: "error + IOCountersStat list"
  h_collectedAt :: Time
  h_now :: Time
  h_arch :: arch

definition detailedOS :: "Host \<Rightarrow> string" where
  "detailedOS h =
     (case h_Info h of
        Inl e \<Rightarrow> h_GOOS h
      | Inr (platform, version) \<Rightarrow>
          if platform \<noteq> [] then
            (if version \<noteq> [] then platform @ '' '' @ version else platform)
          else h_GOOS h)"

fun maxDiskUsage_loop :: "(string \<Rightarrow> error + float64) \<Rightarrow> float64 \<Rightarrow> string list \<Rightarrow> float64" where
  "maxDiskUsage_loop usage mx [] = mx"
| "maxDiskUsage_loop usage mx (p # ps) =
     (case usage p of
        Inl e \<Rightarrow> maxDiskUsage_loop usage mx ps
      | Inr u \<Rightarrow> maxDiskUsage_loop usage (if mx < u then u else mx) ps)"

definition maxDiskUsage :: "Host \<Rightarrow> float64" where
  "maxDiskUsage h =
     (case h_Partitions h of
        Inl e \<Rightarrow> 0
      | Inr ps \<Rightarrow> maxDiskUsage_loop (h_diskUsage h) 0 ps)"

text \<open>
  gopsutil's \<open>Connections(kind)\<close>: the entries of the table whose family and socket
  type belong to the kind (\<open>tcp\<close> is tcp4 and tcp6, \<open>udp\<close> is udp4 and udp6).  It
  does not look at the state of a connection.
\<close>

definition of_kind :: "string \<Rightarrow> ConnectionStat \<Rightarrow> bool" where
  "of_kind kind c =
     ((c_Family c = AF_INET \<or> c_Family c = AF_INET6) \<and>
      (if kind = ''tcp'' then c_Type c = SOCK_STREAM
       else if kind = ''udp'' then c_Type c = SOCK_DGRAM
       else False))"

definition Connections :: "Host \<Rightarrow> string \<Rightarrow> error + ConnectionStat list" where
  "Connections h kind =
     (case h_connErr h kind of
        Some e \<Rightarrow> Inl e
      | None \<Rightarrow> Inr (filter (of_kind kind) (h_connTable h)))"

definition connectionCounts :: "Host \<Rightarrow> int \<times> int" where
  "connectionCounts h =
     (let tcpConns = (case Connections h ''tcp'' of Inl e \<Rightarrow> [] | Inr cs \<Rightarrow> cs);
          udpConns = (case Connections h ''udp'' of Inl e \<Rightarrow> [] | Inr cs \<Rightarrow> cs)
      in (int (length tcpConns), int (length udpConns)))"

text \<open>
  \<open>netBandwidth\<close>.  The counters are \<open>uint64\<close>, so \<open>curRx - c.prevRx\<close> is the
  subtraction of \<open>64 word\<close> and wraps around.  The early return happens before the
  lock is taken and before any field is written.
\<close>

definition rate :: "arch \<Rightarrow> 64 word \<Rightarrow> 64 word \<Rightarrow> float64 \<Rightarrow> int" where
  "rate a cur prev dt =
     (let bps = float64_to_int64 a (f64 (float64_of_uint64 (cur - prev) / dt))
      in if bps < 0 then 0 else bps)"

definition netBandwidth :: "Host \<Rightarrow> Collector \<Rightarrow> (int \<times> int) \<times> Collector" where
  "netBandwidth h c =
     (case h_IOCounters h of
        Inl e \<Rightarrow> ((0, 0), c)
      | Inr [] \<Rightarrow> ((0, 0), c)
      | Inr (st # rest) \<Rightarrow>
          let now = h_now h;
              curRx = io_BytesRecv st;
              curTx = io_BytesSent st;
              dt = Seconds (Sub now (prevTime c));
              r = (if initialized c \<and> 0 < dt
                   then (rate (h_arch h) curRx (prevRx c) dt, rate (h_arch h) curTx (prevTx c) dt)
                   else (0, 0))
          in (r, \<lparr>prevRx = curRx, prevTx = curTx, prevTime = now, initialized = True\<rparr>))"

definition Collector_Collect :: "Host \<Rightarrow> Collector \<Rightarrow> (error + Snapshot) \<times> Collector" where
  "Collector_Collect h c =
     (let (tcp, udp) = connectionCounts h;
          ((rx, tx), c') = netBandwidth h c
      in (Inr \<lparr>s_Hostname = (case h_Hostname h of Inl e \<Rightarrow> [] | Inr n \<Rightarrow> n),
               s_LocalIP = h_localIP h,
               s_GatewayIP = h_defaultGateway h,
               s_OS = detailedOS h,
               s_CPUUsage = (case h_cpuPercent h of
                               Inl e \<Rightarrow> 0 | Inr [] \<Rightarrow> 0 | Inr (p # ps) \<Rightarrow> p),
               s_MemUsage = (case h_VirtualMemory h of Inl e \<Rightarrow> 0 | Inr u \<Rightarrow> u),
               s_DiskUsage = maxDiskUsage h,
               s_TCPConnections = tcp,
               s_UDPConnections = udp,
               s_RxBytes = rx,
               s_TxBytes = tx,
               s_CollectedAt = h_collectedAt h\<rparr>, c'))"

text \<open>A host used to run the collector on concrete readings.\<close>

definition host0 :: Host where
  "host0 = \<lparr>h_Info = Inr (''debian'', ''12''), h_GOOS = ''linux'', h_Hostname = Inr ''node'',
            h_localIP = ''10.0.0.2'', h_defaultGateway = ''10.0.0.1'',
            h_cpuPercent = Inr [5], h_VirtualMemory = Inr 40,
            h_Partitions = Inr [''/''], h_diskUsage = (\<lambda>p. Inr 10),
            h_connTable = [], h_connErr = (\<lambda>k. None),
            h_IOCounters = Inr [\<lparr>io_Name = ''all'', io_BytesSent = 0, io_BytesRecv = 0\<rparr>],
            h_collectedAt = 0, h_now = 0, h_arch = amd64\<rparr>"

section \<open>Server: the record store\<close>

text \<open>\<open>type NetworkMode string\<close> with its three constants.\<close>

type_synonym NetworkMode = string

definition NetworkModeBridged :: NetworkMode where "NetworkModeBridged = ''Bridged''"
definition NetworkModeNAT :: NetworkMode where "NetworkModeNAT = ''NAT''"
definition NetworkModeUnknown :: NetworkMode where "NetworkModeUnknown = ''Unknown''"

text \<open>
  A row of the device table.  Of the embedded \<open>gorm.Model\<close> the primary key \<open>ID\<close>
  is kept; its bookkeeping timestamps take no part in any function below.  \<open>ParentID\<close>
  is the nullable \<open>*uint\<close>.  The association fields \<open>Parent\<close> and \<open>Children\<close> are
  never loaded by the code and are left out.
\<close>

record Device =
  ID :: nat
  Hostname :: string
  Remark :: string
  IP :: string
  OS :: string
  ParentID :: "nat option"
  GatewayIP :: string
  NetworkMode :: NetworkMode
  Group :: string
  LastSeen :: Time
  AgentVer :: string
  IsOnline :: bool

record Metrics =
  m_ID :: nat
  m_DeviceID :: nat
  m_CPUUsage :: float64
  m_MemUsage :: float64
  m_DiskUsage :: float64
  m_RxBytes :: int
  m_TxBytes :: int
  m_TCPConnections :: int
  m_UDPConnections :: int
  m_GatewayIP :: string
  m_LocalIP :: string
  m_ReportedAt :: Time

record RegisterPayload =
  p_Hostname :: string
  p_IP :: string
  p_OS :: string
  p_GatewayIP :: string
  p_Group :: string
  p_NetworkMode :: NetworkMode
  p_ParentID :: "nat option"
  p_AgentVer :: string


text \<open>
  The database behind the global \<open>DB\<close> handle: both tables in primary-key order,
  the two auto-increment counters, and whether the database answers at all.  An
  unreachable database fails every statement.  The tables hold the live rows; rows an
  operator has deleted are outside the model.  Foreign keys are not enforced (the
  default SQLite configuration), so \<open>parent_id\<close> may name any identifier.
\<close>

record DB =
  reachable :: bool
  devices :: "Device list"
  metrics :: "Metrics list"
  next_device_id :: nat
  next_metrics_id :: nat

text \<open>\<open>DB.Where("ip = ?", ip).First(&dev)\<close>\<close>

definition first_by_ip :: "DB \<Rightarrow> string \<Rightarrow> error + Device" where
  "first_by_ip db ip =
     (if \<not> reachable db then Inl ErrStore
      else case find (\<lambda>d. IP d = ip) (devices db) of
             None \<Rightarrow> Inl ErrRecordNotFound
           | Some d \<Rightarrow> Inr d)"

text \<open>
  \<open>DB.Create(&dev)\<close>: the row receives the next identifier, the column defaults of
  the struct tags replace empty values, and the unique index on \<open>ip\<close> rejects a
  second row with the same address.  The struct passed in is updated to the stored row.
\<close>

definition create_device :: "DB \<Rightarrow> Device \<Rightarrow> error + Device \<times> DB" where
  "create_device db dev =
     (if \<not> reachable db then Inl ErrStore
      else if IP dev \<in> set (map IP (devices db)) then Inl ErrStore
      else let row = dev\<lparr>ID := next_device_id db,
                          NetworkMode := (if NetworkMode dev = [] then ''Bridged'' else NetworkMode dev),
                          Group := (if Group dev = [] then ''default'' else Group dev)\<rparr>
           in Inr (row, db\<lparr>devices := devices db @ [row],
                            next_device_id := Suc (next_device_id db)\<rparr>))"

definition create_metrics :: "DB \<Rightarrow> Metrics \<Rightarrow> error + Metrics \<times> DB" where
  "create_metrics db m =
     (if \<not> reachable db then Inl ErrStore
      else let row = m\<lparr>m_ID := next_metrics_id db\<rparr>
           in Inr (row, db\<lparr>metrics := metrics db @ [row],
                            next_metrics_id := Suc (next_metrics_id db)\<rparr>))"

text \<open>
  \<open>DB.Model(&dev).Updates(...)\<close> and \<open>DB.Model(...).Where("id = ?", id).Updates(...)\<close>:
  the assignment \<open>f\<close> is applied to every row with that identifier.  The code never
  looks at the result of these statements.
\<close>

definition update_device :: "DB \<Rightarrow> nat \<Rightarrow> (Device \<Rightarrow> Device) \<Rightarrow> DB" where
  "update_device db i f =
     (if \<not> reachable db then db
      else db\<lparr>devices := map (\<lambda>d. if ID d = i then f d else d) (devices db)\<rparr>)"

text \<open>\<open>DB.Find(&devices)\<close>\<close>

definition find_devices :: "DB \<Rightarrow> error + Device list" where
  "find_devices db = (if \<not> reachable db then Inl ErrStore else Inr (devices db))"

definition empty_db :: DB where
  "empty_db = \<lparr>reachable = True, devices = [], metrics = [],
               next_device_id = 1, next_metrics_id = 1\<rparr>"

section \<open>Server: the topology resolver\<close>

text \<open>
  \<open>wireParent\<close>.  \<open>DB.Model(dev).Update\<close> writes the row and the struct behind the
  pointer alike, and the next line assigns the struct field once more.
\<close>

definition wireParent :: "Device \<Rightarrow> DB \<Rightarrow> Device \<times> DB" where
  "wireParent dev db =
     (case first_by_ip db (GatewayIP dev) of
        Inl e \<Rightarrow> (dev, db)
      | Inr parent \<Rightarrow>
          if ID parent = ID dev then (dev, db)
          else (dev\<lparr>ParentID := Some (ID parent)\<rparr>,
                update_device db (ID dev) (\<lambda>d. d\<lparr>ParentID := Some (ID parent)\<rparr>)))"

text \<open>
  The \<open>if / else if / else\<close> at the head of \<open>UpsertDevice\<close>: create the row, or
  give up on a store error, or update the row found.  An update through
  \<open>DB.Model(&dev)\<close> assigns the same values to the struct \<open>dev\<close>, which the rest of
  the function reads.  The readings of \<open>time.Now()\<close> within one call are one
  reading, \<open>now\<close>.
\<close>

definition set_reported :: "Time \<Rightarrow> RegisterPayload \<Rightarrow> Device \<Rightarrow> Device" where
  "set_reported now payload d =
     d\<lparr>Hostname := p_Hostname payload, OS := p_OS payload, GatewayIP := p_GatewayIP payload,
       Group := p_Group payload, NetworkMode := p_NetworkMode payload,
       AgentVer := p_AgentVer payload, IsOnline := True, LastSeen := now\<rparr>"

definition set_online :: "Time \<Rightarrow> Device \<Rightarrow> Device" where
  "set_online now d = d\<lparr>IsOnline := True, LastSeen := now\<rparr>"

definition create_or_update :: "Time \<Rightarrow> RegisterPayload \<Rightarrow> DB \<Rightarrow> error + Device \<times> DB" where
  "create_or_update now payload db =
     (case first_by_ip db (p_IP payload) of
        Inl ErrRecordNotFound \<Rightarrow>
          create_device db
            \<lparr>ID = 0, Hostname = p_Hostname payload, Remark = [], IP = p_IP payload,
             OS = p_OS payload, ParentID = p_ParentID payload,
             GatewayIP = p_GatewayIP payload, NetworkMode = p_NetworkMode payload,
             Group = p_Group payload, LastSeen = 0, AgentVer = p_AgentVer payload,
             IsOnline = False\<rparr>
      | Inl e \<Rightarrow> Inl e
      | Inr dev \<Rightarrow>
          let db1 = update_device db (ID dev) (set_reported now payload);
              dev1 = set_reported now payload dev
          in case p_ParentID payload of
               None \<Rightarrow> Inr (dev1, db1)
             | Some pid \<Rightarrow>
                 Inr (dev1\<lparr>ParentID := Some pid\<rparr>,
                      update_device db1 (ID dev1) (\<lambda>d. d\<lparr>ParentID := Some pid\<rparr>)))"

definition UpsertDevice :: "Time \<Rightarrow> RegisterPayload \<Rightarrow> DB \<Rightarrow> (error + Device) \<times> DB" where
  "UpsertDevice now payload db =
     (case create_or_update now payload db of
        Inl e \<Rightarrow> (Inl e, db)
      | Inr (dev, db1) \<Rightarrow>
          let (dev2, db2) = (if ParentID dev = None \<and> GatewayIP dev \<noteq> []
                             then wireParent dev db1 else (dev, db1))
          in (Inr (set_online now dev2), update_device db2 (ID dev2) (set_online now)))"

definition SaveMetrics :: "Time \<Rightarrow> nat \<Rightarrow> Metrics \<Rightarrow> DB \<Rightarrow> error option \<times> DB" where
  "SaveMetrics now deviceID m db =
     (case create_metrics db (m\<lparr>m_DeviceID := deviceID, m_ReportedAt := now\<rparr>) of
        Inl e \<Rightarrow> (Some e, db)
      | Inr (row, db1) \<Rightarrow> (None, update_device db1 deviceID (set_online now)))"


section \<open>Server: the tree builder\<close>

text \<open>
  A \<open>DeviceTree\<close> node.  \<open>GetDeviceTree\<close> allocates one node for each entry of
  \<open>nodeMap\<close> and links the nodes by pointers; a pointer to a node is modelled by
  the key under which \<open>nodeMap\<close> holds the node, and \<open>nodeMap\<close> doubles as the heap
  of the nodes.  \<open>Remark\<close> is not copied by the struct literal and stays empty.
\<close>

record DeviceTree =
  t_ID :: nat
  t_Hostname :: string
  t_Remark :: string
  t_IP :: string
  t_OS :: string
  t_GatewayIP :: string
  t_NetworkMode :: NetworkMode
  t_Group :: string
  t_IsOnline :: bool
  t_LastSeen :: Time
  t_ParentID :: "nat option"
  t_Children :: "nat list"

definition node_of :: "Device \<Rightarrow> DeviceTree" where
  "node_of d = \<lparr>t_ID = ID d, t_Hostname = Hostname d, t_Remark = [], t_IP = IP d, t_OS = OS d,
               t_GatewayIP = GatewayIP d, t_NetworkMode = NetworkMode d, t_Group = Group d,
               t_IsOnline = IsOnline d, t_LastSeen = LastSeen d, t_ParentID = ParentID d,
               t_Children = []\<rparr>"

text \<open>The first loop: \<open>nodeMap[d.ID] = &models.DeviceTree{...}\<close> in load order.\<close>

fun build_nodeMap :: "Device list \<Rightarrow> (nat \<rightharpoonup> DeviceTree) \<Rightarrow> (nat \<rightharpoonup> DeviceTree)" where
  "build_nodeMap [] nm = nm"
| "build_nodeMap (d # ds) nm = build_nodeMap ds (nm(ID d \<mapsto> node_of d))"

text \<open>
  The second loop is \<open>for _, node := range nodeMap\<close>.  Go does not specify the order
  in which \<open>range\<close> visits a map and varies it from run to run; the order of the visit
  is the parameter \<open>order\<close>, a list of the keys.  A key that is not in the map is
  not visited.
\<close>

fun wire_children ::
  "nat list \<Rightarrow> nat list \<times> (nat \<rightharpoonup> DeviceTree) \<Rightarrow> nat list \<times> (nat \<rightharpoonup> DeviceTree)" where
  "wire_children [] (roots, nm) = (roots, nm)"
| "wire_children (k # ks) (roots, nm) =
     (case nm k of
        None \<Rightarrow> wire_children ks (roots, nm)
      | Some node \<Rightarrow>
          (case t_ParentID node of
             None \<Rightarrow> wire_children ks (roots @ [k], nm)
           | Some p \<Rightarrow>
               (case nm p of
                  Some parent \<Rightarrow>
                    wire_children ks
                      (roots, nm(p \<mapsto> parent\<lparr>t_Children := t_Children parent @ [k]\<rparr>))
                | None \<Rightarrow> wire_children ks (roots @ [k], nm))))"

definition GetDeviceTree :: "nat list \<Rightarrow> DB \<Rightarrow> error + nat list \<times> (nat \<rightharpoonup> DeviceTree)" where
  "GetDeviceTree order db =
     (case find_devices db of
        Inl e \<Rightarrow> Inl e
      | Inr devs \<Rightarrow> Inr (wire_children order ([], build_nodeMap devs Map.empty)))"

text \<open>An order in which \<open>range\<close> can visit the map built from \<open>devs\<close>: every key once.\<close>

definition range_order :: "nat list \<Rightarrow> Device list \<Rightarrow> bool" where
  "range_order order devs = (distinct order \<and> set order = set (map ID devs))"

section \<open>Notions used to state the properties\<close>


text \<open>
  What the primary key, the auto-increment counter and the unique index on \<open>ip\<close>
  guarantee of the device table.
\<close>

definition wf_db :: "DB \<Rightarrow> bool" where
  "wf_db db = (distinct (map ID (devices db)) \<and> distinct (map IP (devices db)) \<and>
               list_all (\<lambda>d. ID d < next_device_id db) (devices db))"

definition device_by_id :: "DB \<Rightarrow> nat \<Rightarrow> Device option" where
  "device_by_id db i = find (\<lambda>d. ID d = i) (devices db)"

definition device_by_ip :: "DB \<Rightarrow> string \<Rightarrow> Device option" where
  "device_by_ip db ip = find (\<lambda>d. IP d = ip) (devices db)"

definition no_self_parent :: "DB \<Rightarrow> bool" where
  "no_self_parent db = list_all (\<lambda>d. ParentID d \<noteq> Some (ID d)) (devices db)"

text \<open>Sequences of calls of the resolver.\<close>

datatype call = Upsert Time RegisterPayload | Save Time nat Metrics

fun apply_call :: "call \<Rightarrow> DB \<Rightarrow> DB" where
  "apply_call (Upsert now payload) db = snd (UpsertDevice now payload db)"
| "apply_call (Save now deviceID m) db = snd (SaveMetrics now deviceID m db)"

fun run :: "call list \<Rightarrow> DB \<Rightarrow> DB" where
  "run [] db = db"
| "run (c # cs) db = run cs (apply_call c db)"

text \<open>
  The identifier of the device a report is about: the row with the report's address,
  or the row about to be created.  A sequence of calls is free of explicit
  self-reference when no report names that identifier as its explicit parent.
\<close>

definition target_id :: "DB \<Rightarrow> RegisterPayload \<Rightarrow> nat" where
  "target_id db payload =
     (case device_by_ip db (p_IP payload) of
        None \<Rightarrow> next_device_id db
      | Some d \<Rightarrow> ID d)"

fun explicit_not_self :: "call list \<Rightarrow> DB \<Rightarrow> bool" where
  "explicit_not_self [] db = True"
| "explicit_not_self (Upsert now payload # cs) db =
     (p_ParentID payload \<noteq> Some (target_id db payload) \<and>
      explicit_not_self cs (apply_call (Upsert now payload) db))"
| "explicit_not_self (Save now deviceID m # cs) db =
     explicit_not_self cs (apply_call (Save now deviceID m) db)"

text \<open>
  The forest a client sees is the unfolding of the pointers from the roots.  The
  identifiers it shows, in preorder, down to depth \<open>n\<close>:
\<close>

fun unfold_ids :: "nat \<Rightarrow> (nat \<Rightarrow> nat list) \<Rightarrow> nat list \<Rightarrow> nat list" where
  "unfold_ids 0 ch ks = []"
| "unfold_ids (Suc n) ch ks = concat (map (\<lambda>k. k # unfold_ids n ch (ch k)) ks)"

definition children_of :: "(nat \<rightharpoonup> DeviceTree) \<Rightarrow> nat \<Rightarrow> nat list" where
  "children_of nm k = (case nm k of None \<Rightarrow> [] | Some node \<Rightarrow> t_Children node)"

definition forest_ids :: "nat \<Rightarrow> nat list \<times> (nat \<rightharpoonup> DeviceTree) \<Rightarrow> nat list" where
  "forest_ids n forest = unfold_ids n (children_of (snd forest)) (fst forest)"

text \<open>
  The parent of a loaded device that is itself loaded, and the absence of cycles:
  following such parents from any device ends, within as many steps as there are
  devices, at a device without one.
\<close>

definition present_parent :: "Device list \<Rightarrow> nat \<Rightarrow> nat option" where
  "present_parent devs k =
     (case find (\<lambda>d. ID d = k) devs of
        None \<Rightarrow> None
      | Some d \<Rightarrow>
          (case ParentID d of
             None \<Rightarrow> None
           | Some p \<Rightarrow> if p \<in> set (map ID devs) then Some p else None))"

fun reaches_root :: "nat \<Rightarrow> (nat \<Rightarrow> nat option) \<Rightarrow> nat \<Rightarrow> bool" where
  "reaches_root 0 pp k = (pp k = None)"
| "reaches_root (Suc n) pp k = (case pp k of None \<Rightarrow> True | Some p \<Rightarrow> reaches_root n pp p)"

definition acyclic_parents :: "Device list \<Rightarrow> bool" where
  "acyclic_parents devs =
     list_all (\<lambda>d. reaches_root (length devs) (present_parent devs) (ID d)) devs"

section \<open>Notions used in the proofs\<close>

text \<open>
  The parent that auto-wiring finds for device \<open>i\<close> reporting gateway \<open>gw\<close>, and the
  parent recorded after a report: the explicit one, else the one already recorded,
  else the one auto-wiring finds.
\<close>

definition wired :: "DB \<Rightarrow> nat \<Rightarrow> string \<Rightarrow> nat option" where
  "wired db i gw =
     (if gw = [] then None
      else case device_by_ip db gw of
             None \<Rightarrow> None
           | Some g \<Rightarrow> if ID g = i then None else Some (ID g))"

definition resolved_parent :: "DB \<Rightarrow> RegisterPayload \<Rightarrow> nat \<Rightarrow> nat option \<Rightarrow> nat option" where
  "resolved_parent db payload i recorded =
     (case p_ParentID payload of
        Some q \<Rightarrow> Some q
      | None \<Rightarrow> (case recorded of
                   Some p \<Rightarrow> Some p
                 | None \<Rightarrow> wired db i (p_GatewayIP payload)))"

text \<open>What a call that only updates rows leaves as it was.\<close>

definition same_frame :: "DB \<Rightarrow> DB \<Rightarrow> bool" where
  "same_frame db db' =
     (map ID (devices db') = map ID (devices db) \<and> map IP (devices db') = map IP (devices db) \<and>
      reachable db' = reachable db \<and> next_device_id db' = next_device_id db \<and>
      metrics db' = metrics db \<and> next_metrics_id db' = next_metrics_id db)"

text \<open>
  The \<open>i\<close>-th ancestor of a device along a parent function, and the number of
  depths below \<open>n\<close> at which \<open>k\<close> is an ancestor of \<open>j\<close>.
\<close>

fun anc :: "(nat \<Rightarrow> nat option) \<Rightarrow> nat \<Rightarrow> nat \<Rightarrow> nat option" where
  "anc pp 0 j = Some j"
| "anc pp (Suc i) j = (case anc pp i j of None \<Rightarrow> None | Some c \<Rightarrow> pp c)"

definition hits :: "(nat \<Rightarrow> nat option) \<Rightarrow> nat \<Rightarrow> nat \<Rightarrow> nat \<Rightarrow> nat" where
  "hits pp n j k = length (filter (\<lambda>i. anc pp i j = Some k) [0..<n])"

text \<open>
  The parent of a node that is itself in the node map, and the node map after the
  wiring loop has visited the keys \<open>ks\<close>.
\<close>

definition node_parent :: "(nat \<rightharpoonup> DeviceTree) \<Rightarrow> nat \<Rightarrow> nat option" where
  "node_parent nm j =
     (case nm j of
        None \<Rightarrow> None
      | Some n \<Rightarrow> (case t_ParentID n of
                     None \<Rightarrow> None
                   | Some p \<Rightarrow> if nm p = None then None else Some p))"

definition wired_map ::
  "nat list \<Rightarrow> (nat \<rightharpoonup> DeviceTree) \<Rightarrow> (nat \<rightharpoonup> DeviceTree)" where
  "wired_map ks nm =
     (\<lambda>k. map_option
            (\<lambda>n. n\<lparr>t_Children := t_Children n @ filter (\<lambda>j. node_parent nm j = Some k) ks\<rparr>)
            (nm k))"

section \<open>Concrete reports and stores\<close>

text \<open>
  Device A at 10.0.0.2 behind the gateway G at 10.0.0.1, A's metrics, and the store
  after both have registered.
\<close>

definition reportA :: RegisterPayload where
  "reportA = \<lparr>p_Hostname = ''a'', p_IP = ''10.0.0.2'', p_OS = ''linux'',
              p_GatewayIP = ''10.0.0.1'', p_Group = ''lab'', p_NetworkMode = NetworkModeBridged,
              p_ParentID = None, p_AgentVer = ''v0.1.0''\<rparr>"

definition reportG :: RegisterPayload where
  "reportG = \<lparr>p_Hostname = ''g'', p_IP = ''10.0.0.1'', p_OS = ''linux'',
              p_GatewayIP = [], p_Group = ''lab'', p_NetworkMode = NetworkModeBridged,
              p_ParentID = None, p_AgentVer = ''v0.1.0''\<rparr>"


definition devG :: Device where
  "devG = \<lparr>ID = 1, Hostname = ''g'', Remark = [], IP = ''10.0.0.1'', OS = ''linux'',
           ParentID = None, GatewayIP = [], NetworkMode = ''Bridged'', Group = ''lab'',
           LastSeen = 1, AgentVer = ''v0.1.0'', IsOnline = True\<rparr>"

definition devA :: Device where
  "devA = \<lparr>ID = 2, Hostname = ''a'', Remark = [], IP = ''10.0.0.2'', OS = ''linux'',
           ParentID = Some 1, GatewayIP = ''10.0.0.1'', NetworkMode = ''Bridged'', Group = ''lab'',
           LastSeen = 2, AgentVer = ''v0.1.0'', IsOnline = True\<rparr>"

definition dbGA :: DB where
  "dbGA = \<lparr>reachable = True, devices = [devG, devA], metrics = [],
           next_device_id = 3, next_metrics_id = 1\<rparr>"

text \<open>
  A store of four devices: G, its children A and C, and B whose parent 7 is not in the
  store; and the reports of C and B that lead to it.
\<close>

definition devC :: Device where
  "devC = \<lparr>ID = 3, Hostname = ''c'', Remark = [], IP = ''10.0.0.3'', OS = ''linux'',
           ParentID = Some 1, GatewayIP = ''10.0.0.1'', NetworkMode = ''Bridged'', Group = ''lab'',
           LastSeen = 3, AgentVer = ''v0.1.0'', IsOnline = True\<rparr>"

definition devB :: Device where
  "devB = \<lparr>ID = 4, Hostname = ''b'', Remark = [], IP = ''10.0.0.4'', OS = ''linux'',
           ParentID = Some 7, GatewayIP = [], NetworkMode = ''Bridged'', Group = ''lab'',
           LastSeen = 4, AgentVer = ''v0.1.0'', IsOnline = True\<rparr>"

definition reportC :: RegisterPayload where
  "reportC = \<lparr>p_Hostname = ''c'', p_IP = ''10.0.0.3'', p_OS = ''linux'',
              p_GatewayIP = ''10.0.0.1'', p_Group = ''lab'', p_NetworkMode = NetworkModeBridged,
              p_ParentID = None, p_AgentVer = ''v0.1.0''\<rparr>"

definition reportB :: RegisterPayload where
  "reportB = \<lparr>p_Hostname = ''b'', p_IP = ''10.0.0.4'', p_OS = ''linux'',
              p_GatewayIP = [], p_Group = ''lab'', p_NetworkMode = NetworkModeBridged,
              p_ParentID = Some 7, p_AgentVer = ''v0.1.0''\<rparr>"

definition dbTree :: DB where
  "dbTree = \<lparr>reachable = True, devices = [devG, devA, devC, devB], metrics = [],
             next_device_id = 5, next_metrics_id = 1\<rparr>"

text \<open>Two devices that report each other's address as gateway.\<close>

definition mutual_gateways :: "call list" where
  "mutual_gateways = [Upsert 1 reportA, Upsert 2 (reportG\<lparr>p_GatewayIP := ''10.0.0.2''\<rparr>),
                      Upsert 3 reportA]"

section \<open>Server: lemmas about the record store and the resolver\<close>

lemma update_device_fields [simp]:
  "reachable (update_device db i f) = reachable db"
  "metrics (update_device db i f) = metrics db"
  "next_device_id (update_device db i f) = next_device_id db"
  "next_metrics_id (update_device db i f) = next_metrics_id db"
  by (simp_all add: update_device_def)

lemma update_device_devices:
  "devices (update_device db i f) =
     (if reachable db then map (\<lambda>d. if ID d = i then f d else d) (devices db) else devices db)"
  by (simp add: update_device_def)

lemma nsp_update_keep:
  assumes "no_self_parent db" and "\<And>d. ParentID (f d) = ParentID d \<and> ID (f d) = ID d"
  shows "no_self_parent (update_device db i f)"
  using assms by (auto simp: no_self_parent_def update_device_devices list_all_iff)

lemma nsp_update_parent:
  assumes "no_self_parent db" and "q \<noteq> i"
  shows "no_self_parent (update_device db i (\<lambda>d. d\<lparr>ParentID := Some q\<rparr>))"
  using assms by (auto simp: no_self_parent_def update_device_devices list_all_iff)

lemma nsp_wireParent:
  assumes "no_self_parent db" and "wireParent dev db = (dev', db')"
  shows "no_self_parent db'"
  using assms
  by (auto simp: wireParent_def nsp_update_parent split: sum.splits if_splits)

lemma first_by_ip_Inr:
  "first_by_ip db ip = Inr d \<longleftrightarrow> reachable db \<and> device_by_ip db ip = Some d"
  by (auto simp: first_by_ip_def device_by_ip_def split: option.splits)

lemma first_by_ip_NotFound:
  "first_by_ip db ip = Inl ErrRecordNotFound \<longleftrightarrow> reachable db \<and> device_by_ip db ip = None"
  by (auto simp: first_by_ip_def device_by_ip_def split: option.splits)

lemma nsp_create_or_update:
  assumes "no_self_parent db"
    and "p_ParentID payload \<noteq> Some (target_id db payload)"
    and "create_or_update now payload db = Inr (dev, db1)"
  shows "no_self_parent db1"
proof (cases "first_by_ip db (p_IP payload)")
  case (Inl e)
  with assms(3) have nf: "e = ErrRecordNotFound"
    by (cases e) (simp_all add: create_or_update_def)
  with Inl have "device_by_ip db (p_IP payload) = None"
    by (simp add: first_by_ip_NotFound)
  with assms(2) have "p_ParentID payload \<noteq> Some (next_device_id db)"
    by (simp add: target_id_def)
  with assms(1,3) Inl nf show ?thesis
    by (auto simp: create_or_update_def create_device_def no_self_parent_def Let_def
        split: if_splits)
next
  case (Inr d)
  then have "device_by_ip db (p_IP payload) = Some d"
    by (simp add: first_by_ip_Inr)
  with assms(2) have ne: "p_ParentID payload \<noteq> Some (ID d)"
    by (simp add: target_id_def)
  have keep: "no_self_parent (update_device db (ID d) (set_reported now payload))"
    by (rule nsp_update_keep [OF assms(1)]) (simp add: set_reported_def)
  show ?thesis
  proof (cases "p_ParentID payload")
    case None
    with assms(3) Inr keep show ?thesis
      by (simp add: create_or_update_def Let_def)
  next
    case (Some q)
    with ne have "q \<noteq> ID d" by simp
    from nsp_update_parent [OF keep this] assms(3) Inr Some show ?thesis
      by (simp add: create_or_update_def Let_def set_reported_def)
  qed
qed

lemma nsp_UpsertDevice:
  assumes "no_self_parent db"
    and "p_ParentID payload \<noteq> Some (target_id db payload)"
  shows "no_self_parent (snd (UpsertDevice now payload db))"
proof (cases "create_or_update now payload db")
  case (Inl e)
  with assms(1) show ?thesis by (simp add: UpsertDevice_def)
next
  case (Inr r)
  obtain dev db1 where r: "r = (dev, db1)" by (cases r)
  from nsp_create_or_update [OF assms Inr [unfolded r]] have n1: "no_self_parent db1" .
  obtain dev2 db2 where w: "(if ParentID dev = None \<and> GatewayIP dev \<noteq> []
                             then wireParent dev db1 else (dev, db1)) = (dev2, db2)"
    by (cases "if ParentID dev = None \<and> GatewayIP dev \<noteq> [] then wireParent dev db1 else (dev, db1)")
  from w n1 have n2: "no_self_parent db2"
    by (auto split: if_splits dest: nsp_wireParent)
  have "no_self_parent (update_device db2 (ID dev2) (set_online now))"
    by (rule nsp_update_keep [OF n2]) (simp add: set_online_def)
  with Inr r w show ?thesis
    by (simp add: UpsertDevice_def)
qed

lemma nsp_SaveMetrics:
  assumes "no_self_parent db"
  shows "no_self_parent (snd (SaveMetrics now i m db))"
proof -
  have "no_self_parent (update_device (db\<lparr>metrics := ms, next_metrics_id := n\<rparr>) i (set_online now))" for ms n
    by (rule nsp_update_keep) (use assms in \<open>simp_all add: no_self_parent_def set_online_def\<close>)
  with assms show ?thesis
    by (auto simp: SaveMetrics_def create_metrics_def Let_def)
qed

lemma nsp_run:
  "no_self_parent db \<Longrightarrow> explicit_not_self cs db \<Longrightarrow> no_self_parent (run cs db)"
proof (induction cs arbitrary: db)
  case Nil
  then show ?case by simp
next
  case (Cons c cs)
  show ?case
  proof (cases c)
    case (Upsert now payload)
    with Cons.prems have "no_self_parent (apply_call c db)"
      by (simp add: nsp_UpsertDevice)
    with Cons Upsert show ?thesis by simp
  next
    case (Save now i m)
    with Cons.prems have "no_self_parent (apply_call c db)"
      by (simp add: nsp_SaveMetrics)
    with Cons Save show ?thesis by simp
  qed
qed

lemma explicit_not_self_take:
  "explicit_not_self cs db \<Longrightarrow> explicit_not_self (take n cs) db"
proof (induction cs db arbitrary: n rule: explicit_not_self.induct)
  case (1 db)
  then show ?case by simp
next
  case (2 now payload cs db)
  then show ?case by (cases n) simp_all
next
  case (3 now deviceID m cs db)
  then show ?case by (cases n) simp_all
qed

lemma device_by_id_update:
  assumes "\<And>x. ID (f x) = ID x"
  shows "device_by_id (update_device db i f) j =
           (if reachable db \<and> i = j then map_option f (device_by_id db j) else device_by_id db j)"
proof (cases "reachable db")
  case False
  then show ?thesis by (simp add: device_by_id_def update_device_def)
next
  case True
  have pres: "(ID (if ID x = i then f x else x) = j) = (ID x = j)" for x
    by (simp add: assms)
  have "find (\<lambda>d. ID d = j) (map (\<lambda>d. if ID d = i then f d else d) xs)
        = (if i = j then map_option f (find (\<lambda>d. ID d = j) xs) else find (\<lambda>d. ID d = j) xs)" for xs
    by (induction xs) (auto simp: assms)
  with True show ?thesis
    by (simp add: device_by_id_def update_device_devices)
qed

lemma update_device_map_ID:
  assumes "\<And>x. ID (f x) = ID x"
  shows "map ID (devices (update_device db i f)) = map ID (devices db)"
  by (simp add: update_device_devices assms)

lemma update_device_map_IP:
  assumes "\<And>x. IP (f x) = IP x"
  shows "map IP (devices (update_device db i f)) = map IP (devices db)"
  by (simp add: update_device_devices assms)

lemma device_by_id_mem:
  assumes "distinct (map ID (devices db))" and "d \<in> set (devices db)"
  shows "device_by_id db (ID d) = Some d"
proof -
  have "distinct (map ID xs) \<Longrightarrow> d \<in> set xs \<Longrightarrow> find (\<lambda>x. ID x = ID d) xs = Some d" for xs
    by (induction xs) (auto simp: rev_image_eqI)
  with assms show ?thesis by (simp add: device_by_id_def)
qed


lemma device_by_ip_SomeD:
  "device_by_ip db ip = Some d \<Longrightarrow> d \<in> set (devices db) \<and> IP d = ip"
  by (auto simp: device_by_ip_def find_Some_iff)

lemma device_by_ip_None:
  "device_by_ip db ip = None \<longleftrightarrow> ip \<notin> set (map IP (devices db))"
  by (auto simp: device_by_ip_def find_None_iff)

lemma wireParent_char:
  assumes "reachable db" and "device_by_id db (ID dev) = Some dev"
    and "wireParent dev db = (dev', db')"
  shows "dev' = dev\<lparr>ParentID := (case device_by_ip db (GatewayIP dev) of
                                    None \<Rightarrow> ParentID dev
                                  | Some g \<Rightarrow> if ID g = ID dev then ParentID dev else Some (ID g))\<rparr>
       \<and> device_by_id db' (ID dev) = Some dev'
       \<and> (\<forall>j. j \<noteq> ID dev \<longrightarrow> device_by_id db' j = device_by_id db j)
       \<and> map ID (devices db') = map ID (devices db)
       \<and> map IP (devices db') = map IP (devices db)
       \<and> reachable db' \<and> next_device_id db' = next_device_id db \<and> metrics db' = metrics db
       \<and> next_metrics_id db' = next_metrics_id db"
proof (cases "device_by_ip db (GatewayIP dev)")
  case None
  with assms show ?thesis
    by (auto simp: wireParent_def first_by_ip_def device_by_ip_def)
next
  case (Some g)
  then have f: "first_by_ip db (GatewayIP dev) = Inr g"
    using assms(1) by (simp add: first_by_ip_Inr)
  show ?thesis
  proof (cases "ID g = ID dev")
    case True
    with assms f Some show ?thesis by (auto simp: wireParent_def)
  next
    case False
    with assms f Some show ?thesis
      by (auto simp: wireParent_def device_by_id_update update_device_map_ID update_device_map_IP)
  qed
qed

lemma same_frame_refl [simp]: "same_frame db db"
  by (simp add: same_frame_def)

lemma same_frame_trans: "same_frame a b \<Longrightarrow> same_frame b c \<Longrightarrow> same_frame a c"
  by (simp add: same_frame_def)

lemma same_frame_update:
  assumes "\<And>x. ID (f x) = ID x" and "\<And>x. IP (f x) = IP x"
  shows "same_frame db (update_device db i f)"
  by (simp add: same_frame_def update_device_map_ID update_device_map_IP assms)

lemma same_frame_by_ip_ID:
  assumes "same_frame db db'"
  shows "map_option ID (device_by_ip db' ip) = map_option ID (device_by_ip db ip)"
proof -
  have aux: "map ID xs = map ID ys \<Longrightarrow> map IP xs = map IP ys \<Longrightarrow>
        map_option ID (find (\<lambda>d. IP d = ip) xs) = map_option ID (find (\<lambda>d. IP d = ip) ys)" for xs ys
  proof (induction xs arbitrary: ys)
    case Nil
    then show ?case by simp
  next
    case (Cons x xs)
    then obtain y ys' where "ys = y # ys'" by (cases ys) auto
    with Cons show ?case by auto
  qed
  from assms have "map ID (devices db') = map ID (devices db)"
    and "map IP (devices db') = map IP (devices db)"
    by (simp_all add: same_frame_def)
  from aux [OF this] show ?thesis by (simp add: device_by_ip_def)
qed

lemma wired_same_frame:
  "same_frame db db' \<Longrightarrow> wired db' i gw = wired db i gw"
  using same_frame_by_ip_ID [of db db' gw]
  by (auto simp: wired_def split: option.splits)

lemma wireParent_frame:
  assumes "reachable db" and "device_by_id db (ID dev) = Some dev"
    and "wireParent dev db = (dev', db')"
  shows "dev' = dev\<lparr>ParentID := (case wired db (ID dev) (GatewayIP dev) of
                                    None \<Rightarrow> ParentID dev | Some g \<Rightarrow> Some g)\<rparr> \<or> GatewayIP dev = []"
    and "device_by_id db' (ID dev) = Some dev'"
    and "\<And>j. j \<noteq> ID dev \<Longrightarrow> device_by_id db' j = device_by_id db j"
    and "same_frame db db'"
  using wireParent_char [OF assms]
  by (auto simp: wired_def same_frame_def assms(1) split: option.splits)

lemma create_or_update_found:
  assumes "reachable db" and "device_by_ip db (p_IP payload) = Some d"
    and "device_by_id db (ID d) = Some d"
  shows "\<exists>dev db1. create_or_update now payload db = Inr (dev, db1)
          \<and> dev = (set_reported now payload d)\<lparr>ParentID :=
                     (case p_ParentID payload of None \<Rightarrow> ParentID d | Some q \<Rightarrow> Some q)\<rparr>
          \<and> device_by_id db1 (ID d) = Some dev
          \<and> (\<forall>j. j \<noteq> ID d \<longrightarrow> device_by_id db1 j = device_by_id db j)
          \<and> same_frame db db1"
proof -
  let ?f = "set_reported now payload"
  let ?db1 = "update_device db (ID d) ?f"
  have f: "first_by_ip db (p_IP payload) = Inr d"
    using assms by (simp add: first_by_ip_Inr)
  have idf: "ID (?f x) = ID x" "IP (?f x) = IP x" for x
    by (simp_all add: set_reported_def)
  have row1: "device_by_id ?db1 (ID d) = Some (?f d)"
    using assms by (simp add: device_by_id_update idf)
  have other1: "j \<noteq> ID d \<Longrightarrow> device_by_id ?db1 j = device_by_id db j" for j
    by (auto simp add: device_by_id_update idf)
  have fr1: "same_frame db ?db1"
    by (rule same_frame_update) (simp_all add: idf)
  show ?thesis
  proof (cases "p_ParentID payload")
    case None
    have "?f d = (?f d)\<lparr>ParentID := ParentID d\<rparr>"
      by (simp add: set_reported_def)
    with None f row1 other1 fr1 show ?thesis
      by (simp add: create_or_update_def Let_def)
  next
    case (Some q)
    let ?g = "\<lambda>x::Device. x\<lparr>ParentID := Some q\<rparr>"
    let ?db2 = "update_device ?db1 (ID d) ?g"
    have row2: "device_by_id ?db2 (ID d) = Some (?g (?f d))"
      using assms(1) row1 by (simp add: device_by_id_update)
    have other2: "j \<noteq> ID d \<Longrightarrow> device_by_id ?db2 j = device_by_id db j" for j
      using other1 [of j] by (auto simp add: device_by_id_update)
    have "same_frame ?db1 ?db2"
      by (rule same_frame_update) simp_all
    with fr1 have fr2: "same_frame db ?db2"
      by (rule same_frame_trans)
    from Some f row2 other2 fr2 show ?thesis
      by (simp add: create_or_update_def Let_def idf)
  qed
qed

lemma upsert_finish:
  assumes "reachable db1" and "device_by_id db1 (ID dev) = Some dev"
    and "create_or_update now payload db = Inr (dev, db1)"
  shows "\<exists>dev' db'. UpsertDevice now payload db = (Inr dev', db')
          \<and> dev' = set_online now (dev\<lparr>ParentID :=
                (case ParentID dev of
                   Some p \<Rightarrow> Some p
                 | None \<Rightarrow> wired db1 (ID dev) (GatewayIP dev))\<rparr>)
          \<and> device_by_id db' (ID dev) = Some dev'
          \<and> (\<forall>j. j \<noteq> ID dev \<longrightarrow> device_by_id db' j = device_by_id db1 j)
          \<and> same_frame db1 db'"
proof -
  let ?c = "ParentID dev = None \<and> GatewayIP dev \<noteq> []"
  obtain dev2 db2 where w: "(if ?c then wireParent dev db1 else (dev, db1)) = (dev2, db2)"
    by (cases "if ?c then wireParent dev db1 else (dev, db1)")
  have so: "ID (set_online now x) = ID x" "IP (set_online now x) = IP x" for x
    by (simp_all add: set_online_def)
  have step: "dev2 = dev\<lparr>ParentID := (case ParentID dev of Some p \<Rightarrow> Some p
                 | None \<Rightarrow> wired db1 (ID dev) (GatewayIP dev))\<rparr>
      \<and> device_by_id db2 (ID dev) = Some dev2
      \<and> (\<forall>j. j \<noteq> ID dev \<longrightarrow> device_by_id db2 j = device_by_id db1 j)
      \<and> same_frame db1 db2"
  proof (cases ?c)
    case True
    with w have wp: "wireParent dev db1 = (dev2, db2)" by simp
    from wireParent_frame [OF assms(1,2) wp] True show ?thesis
      by (auto split: option.splits)
  next
    case False
    with w have "dev2 = dev" "db2 = db1" by simp_all
    with False assms(2) show ?thesis
      by (cases "ParentID dev") (simp_all add: wired_def)
  qed
  then have id2: "ID dev2 = ID dev" by simp
  from step have r2: "reachable db2" using assms(1) by (simp add: same_frame_def)
  let ?db' = "update_device db2 (ID dev2) (set_online now)"
  have u: "UpsertDevice now payload db = (Inr (set_online now dev2), ?db')"
    using assms(3) w by (simp add: UpsertDevice_def)
  have row: "device_by_id ?db' (ID dev) = Some (set_online now dev2)"
    using step r2 id2 by (simp add: device_by_id_update so)
  have other: "j \<noteq> ID dev \<Longrightarrow> device_by_id ?db' j = device_by_id db1 j" for j
    using step id2 by (auto simp add: device_by_id_update so)
  have "same_frame db2 ?db'"
    by (rule same_frame_update) (simp_all add: so)
  with step have fr: "same_frame db1 ?db'"
    by (blast intro: same_frame_trans)
  from u row other fr step show ?thesis
    by simp
qed

lemma UpsertDevice_found:
  assumes "reachable db" and "device_by_ip db (p_IP payload) = Some d"
    and "device_by_id db (ID d) = Some d"
  shows "\<exists>dev' db'. UpsertDevice now payload db = (Inr dev', db')
          \<and> ID dev' = ID d \<and> IP dev' = IP d
          \<and> ParentID dev' = resolved_parent db payload (ID d) (ParentID d)
          \<and> device_by_id db' (ID d) = Some dev'
          \<and> (\<forall>j. j \<noteq> ID d \<longrightarrow> device_by_id db' j = device_by_id db j)
          \<and> same_frame db db'"
proof -
  from create_or_update_found [OF assms, of now]
  obtain dev db1 where cu: "create_or_update now payload db = Inr (dev, db1)"
    and dev: "dev = (set_reported now payload d)\<lparr>ParentID :=
                     (case p_ParentID payload of None \<Rightarrow> ParentID d | Some q \<Rightarrow> Some q)\<rparr>"
    and row1: "device_by_id db1 (ID d) = Some dev"
    and other1: "\<forall>j. j \<noteq> ID d \<longrightarrow> device_by_id db1 j = device_by_id db j"
    and fr1: "same_frame db db1"
    by blast
  from dev have flds: "ID dev = ID d" "IP dev = IP d" "GatewayIP dev = p_GatewayIP payload"
    "ParentID dev = (case p_ParentID payload of None \<Rightarrow> ParentID d | Some q \<Rightarrow> Some q)"
    by (simp_all add: set_reported_def)
  from fr1 assms(1) have r1: "reachable db1" by (simp add: same_frame_def)
  from row1 flds have row1': "device_by_id db1 (ID dev) = Some dev" by simp
  from upsert_finish [OF r1 row1' cu]
  obtain dev' db' where u: "UpsertDevice now payload db = (Inr dev', db')"
    and dev': "dev' = set_online now (dev\<lparr>ParentID :=
                (case ParentID dev of Some p \<Rightarrow> Some p
                 | None \<Rightarrow> wired db1 (ID dev) (GatewayIP dev))\<rparr>)"
    and row: "device_by_id db' (ID dev) = Some dev'"
    and other: "\<forall>j. j \<noteq> ID dev \<longrightarrow> device_by_id db' j = device_by_id db1 j"
    and fr: "same_frame db1 db'"
    by blast
  have par: "ParentID dev' = resolved_parent db payload (ID d) (ParentID d)"
    using dev' flds wired_same_frame [OF fr1]
    by (simp add: set_online_def resolved_parent_def split: option.splits)
  have ids: "ID dev' = ID d" "IP dev' = IP d"
    using dev' flds by (simp_all add: set_online_def)
  from u par ids row other other1 flds same_frame_trans [OF fr1 fr] show ?thesis
    by simp
qed

lemma find_ID_None: "i \<notin> set (map ID xs) \<Longrightarrow> find (\<lambda>d. ID d = i) xs = None"
  by (auto simp: find_None_iff)

lemma find_append:
  "find P (xs @ ys) = (case find P xs of None \<Rightarrow> find P ys | Some x \<Rightarrow> Some x)"
  by (induction xs) simp_all

lemma rows_ext:
  assumes "distinct (map ID xs)" and "map ID ys = map ID xs"
    and "\<And>j. find (\<lambda>d. ID d = j) ys = find (\<lambda>d. ID d = j) xs"
  shows "ys = (xs :: Device list)"
  using assms
proof (induction xs arbitrary: ys)
  case Nil
  then show ?case by simp
next
  case (Cons x xs)
  from Cons.prems(2) obtain y ys' where ys: "ys = y # ys'" and idy: "ID y = ID x"
    and ids: "map ID ys' = map ID xs"
    by (cases ys) auto
  from Cons.prems(3) [of "ID x"] ys idy have xy: "y = x" by simp
  have "find (\<lambda>d. ID d = j) ys' = find (\<lambda>d. ID d = j) xs" for j
  proof (cases "j = ID x")
    case True
    with Cons.prems(1) have "j \<notin> set (map ID xs)" by auto
    with ids show ?thesis by (simp add: find_ID_None del: set_map)
  next
    case False
    with Cons.prems(3) [of j] ys idy show ?thesis by simp
  qed
  with Cons.IH [of ys'] Cons.prems(1) ids have "ys' = xs" by simp
  with ys xy show ?case by simp
qed

lemma wf_db_ids: "wf_db db \<Longrightarrow> d \<in> set (devices db) \<Longrightarrow> ID d < next_device_id db"
  by (simp add: wf_db_def list_all_iff)

lemma UpsertDevice_new:
  assumes "reachable db" and "device_by_ip db (p_IP payload) = None" and "wf_db db"
  shows "\<exists>dev' db'. UpsertDevice now payload db = (Inr dev', db')
          \<and> devices db' = devices db @ [dev']
          \<and> ID dev' = next_device_id db \<and> IP dev' = p_IP payload
          \<and> Hostname dev' = p_Hostname payload \<and> GatewayIP dev' = p_GatewayIP payload
          \<and> AgentVer dev' = p_AgentVer payload
          \<and> Group dev' = (if p_Group payload = [] then ''default'' else p_Group payload)
          \<and> NetworkMode dev' = (if p_NetworkMode payload = [] then ''Bridged''
                                 else p_NetworkMode payload)
          \<and> ParentID dev' = resolved_parent db payload (next_device_id db) None
          \<and> reachable db' \<and> next_device_id db' = Suc (next_device_id db)
          \<and> metrics db' = metrics db \<and> next_metrics_id db' = next_metrics_id db"
proof -
  let ?n = "next_device_id db"
  define row where "row =
     \<lparr>ID = ?n, Hostname = p_Hostname payload, Remark = [], IP = p_IP payload,
      OS = p_OS payload, ParentID = p_ParentID payload,
      GatewayIP = p_GatewayIP payload,
      NetworkMode = (if p_NetworkMode payload = [] then ''Bridged'' else p_NetworkMode payload),
      Group = (if p_Group payload = [] then ''default'' else p_Group payload),
      LastSeen = 0, AgentVer = p_AgentVer payload, IsOnline = False\<rparr>"
  define db1 where "db1 = db\<lparr>devices := devices db @ [row], next_device_id := Suc ?n\<rparr>"
  have fresh: "?n \<notin> set (map ID (devices db))"
  proof
    assume "?n \<in> set (map ID (devices db))"
    then obtain x where "x \<in> set (devices db)" and "ID x = ?n" by auto
    with wf_db_ids [OF assms(3), of x] show False by simp
  qed
  have nf: "first_by_ip db (p_IP payload) = Inl ErrRecordNotFound"
    using assms by (simp add: first_by_ip_NotFound)
  have noip: "p_IP payload \<notin> set (map IP (devices db))"
    using assms(2) by (simp add: device_by_ip_None)
  have cu: "create_or_update now payload db = Inr (row, db1)"
    using nf noip assms(1)
    by (simp add: create_or_update_def create_device_def row_def db1_def Let_def del: set_map)
  have r1: "reachable db1" using assms(1) by (simp add: db1_def)
  have row1: "device_by_id db1 (ID row) = Some row"
    using fresh by (simp add: device_by_id_def db1_def row_def find_append find_ID_None del: set_map)
  from upsert_finish [OF r1 row1 cu]
  obtain dev' db' where u: "UpsertDevice now payload db = (Inr dev', db')"
    and dev': "dev' = set_online now (row\<lparr>ParentID :=
                (case ParentID row of Some p \<Rightarrow> Some p
                 | None \<Rightarrow> wired db1 (ID row) (GatewayIP row))\<rparr>)"
    and rowf: "device_by_id db' (ID row) = Some dev'"
    and other: "\<forall>j. j \<noteq> ID row \<longrightarrow> device_by_id db' j = device_by_id db1 j"
    and fr: "same_frame db1 db'"
    by blast
  have w: "wired db1 ?n gw = wired db ?n gw" for gw
  proof (cases "device_by_ip db gw")
    case None
    then show ?thesis
      by (simp add: wired_def device_by_ip_def db1_def find_append row_def)
  next
    case (Some g)
    then show ?thesis
      by (simp add: wired_def device_by_ip_def db1_def find_append)
  qed
  have par: "ParentID dev' = resolved_parent db payload ?n None"
    using dev' w by (simp add: set_online_def resolved_parent_def row_def split: option.splits)
  have idd: "ID dev' = ?n"
    using dev' by (simp add: set_online_def row_def)
  have ids: "map ID (devices db') = map ID (devices db @ [dev'])"
    using fr idd by (simp add: same_frame_def db1_def row_def)
  have dist: "distinct (map ID (devices db @ [dev']))"
    using assms(3) fresh idd by (simp add: wf_db_def)
  have "find (\<lambda>d. ID d = j) (devices db') = find (\<lambda>d. ID d = j) (devices db @ [dev'])" for j
  proof (cases "j = ?n")
    case True
    with rowf fresh idd show ?thesis
      by (simp add: device_by_id_def row_def find_append find_ID_None del: set_map)
  next
    case False
    with other have "device_by_id db' j = device_by_id db1 j"
      by (simp add: row_def)
    with False idd show ?thesis
      by (simp add: device_by_id_def db1_def row_def find_append split: option.splits)
  qed
  with rows_ext [OF dist ids] have devs: "devices db' = devices db @ [dev']"
    by simp
  have flds: "IP dev' = p_IP payload" "Hostname dev' = p_Hostname payload"
    "GatewayIP dev' = p_GatewayIP payload" "AgentVer dev' = p_AgentVer payload"
    "Group dev' = (if p_Group payload = [] then ''default'' else p_Group payload)"
    "NetworkMode dev' = (if p_NetworkMode payload = [] then ''Bridged'' else p_NetworkMode payload)"
    using dev' by (simp_all add: set_online_def row_def)
  have rest: "reachable db'" "next_device_id db' = Suc ?n" "metrics db' = metrics db"
    "next_metrics_id db' = next_metrics_id db"
    using fr assms(1) by (simp_all add: same_frame_def db1_def)
  from u devs idd flds par rest show ?thesis
    by simp
qed

lemma wf_db_same_frame:
  assumes "same_frame db db'" and "wf_db db"
  shows "wf_db db'"
proof -
  from assms(1) have m: "map ID (devices db') = map ID (devices db)"
    "map IP (devices db') = map IP (devices db)" "next_device_id db' = next_device_id db"
    by (simp_all add: same_frame_def)
  have "list_all (\<lambda>d. ID d < n) xs = list_all (\<lambda>i. i < n) (map ID xs)" for n and xs :: "Device list"
    by (induction xs) simp_all
  with m assms(2) show ?thesis
    by (simp add: wf_db_def)
qed


text \<open>One successful call of \<open>UpsertDevice\<close>, whichever branch it takes.\<close>

lemma UpsertDevice_summary:
  assumes "wf_db db" and "reachable db"
  shows "\<exists>dev' db'. UpsertDevice now p db = (Inr dev', db')
          \<and> wf_db db' \<and> reachable db'
          \<and> device_by_ip db' (p_IP p) = Some dev'
          \<and> device_by_id db' (ID dev') = Some dev'
          \<and> ID dev' = target_id db p
          \<and> ParentID dev' = resolved_parent db p (ID dev')
               (case device_by_ip db (p_IP p) of None \<Rightarrow> None | Some d \<Rightarrow> ParentID d)
          \<and> (\<forall>j. j \<noteq> ID dev' \<longrightarrow> device_by_id db' j = device_by_id db j)
          \<and> (\<forall>ip. ip \<noteq> p_IP p \<longrightarrow> map_option ID (device_by_ip db' ip) = map_option ID (device_by_ip db ip))
          \<and> metrics db' = metrics db \<and> next_metrics_id db' = next_metrics_id db"
proof (cases "device_by_ip db (p_IP p)")
  case None
  from UpsertDevice_new [OF assms(2) None assms(1), of now]
  obtain dev' db' where u: "UpsertDevice now p db = (Inr dev', db')"
    and devs: "devices db' = devices db @ [dev']"
    and idd: "ID dev' = next_device_id db" and ipd: "IP dev' = p_IP p"
    and par: "ParentID dev' = resolved_parent db p (next_device_id db) None"
    and rest: "reachable db'" "next_device_id db' = Suc (next_device_id db)"
      "metrics db' = metrics db" "next_metrics_id db' = next_metrics_id db"
    by blast
  have fresh: "next_device_id db \<notin> set (map ID (devices db))"
  proof
    assume "next_device_id db \<in> set (map ID (devices db))"
    then obtain x where "x \<in> set (devices db)" and "ID x = next_device_id db" by auto
    with wf_db_ids [OF assms(1), of x] show False by simp
  qed
  have noip: "p_IP p \<notin> set (map IP (devices db))"
    using None by (simp add: device_by_ip_None)
  have wf: "wf_db db'"
    using assms(1) devs idd ipd rest(2) fresh noip
    by (auto simp: wf_db_def list_all_iff less_Suc_eq)
  have byip: "device_by_ip db' (p_IP p) = Some dev'"
    using None devs ipd by (simp add: device_by_ip_def find_append)
  have byid: "device_by_id db' (ID dev') = Some dev'"
    using fresh devs idd by (simp add: device_by_id_def find_append find_ID_None del: set_map)
  have other: "j \<noteq> ID dev' \<Longrightarrow> device_by_id db' j = device_by_id db j" for j
    using devs by (simp add: device_by_id_def find_append split: option.splits)
  have otherip: "ip \<noteq> p_IP p \<Longrightarrow> device_by_ip db' ip = device_by_ip db ip" for ip
    using devs ipd by (simp add: device_by_ip_def find_append split: option.splits)
  from u wf rest byip byid idd par other otherip None show ?thesis
    by (simp add: target_id_def)
next
  case (Some d)
  then have mem: "d \<in> set (devices db)" and ipd: "IP d = p_IP p"
    by (auto dest: device_by_ip_SomeD)
  from assms(1) mem have byid0: "device_by_id db (ID d) = Some d"
    by (simp add: wf_db_def device_by_id_mem)
  from UpsertDevice_found [OF assms(2) Some byid0, of now]
  obtain dev' db' where u: "UpsertDevice now p db = (Inr dev', db')"
    and idd: "ID dev' = ID d" and ipd': "IP dev' = IP d"
    and par: "ParentID dev' = resolved_parent db p (ID d) (ParentID d)"
    and row: "device_by_id db' (ID d) = Some dev'"
    and other: "\<forall>j. j \<noteq> ID d \<longrightarrow> device_by_id db' j = device_by_id db j"
    and fr: "same_frame db db'"
    by blast
  have wf: "wf_db db'" by (rule wf_db_same_frame [OF fr assms(1)])
  have r: "reachable db'" using fr assms(2) by (simp add: same_frame_def)
  from same_frame_by_ip_ID [OF fr, of "p_IP p"] Some
  obtain x where x: "device_by_ip db' (p_IP p) = Some x" and idx: "ID x = ID d"
    by auto
  from x have "x \<in> set (devices db')" by (auto dest: device_by_ip_SomeD)
  with wf have "device_by_id db' (ID x) = Some x"
    by (simp add: wf_db_def device_by_id_mem)
  with row idx have "x = dev'" by simp
  with x have byip: "device_by_ip db' (p_IP p) = Some dev'" by simp
  have m: "metrics db' = metrics db" "next_metrics_id db' = next_metrics_id db"
    using fr by (simp_all add: same_frame_def)
  from u wf r byip row idd par other same_frame_by_ip_ID [OF fr] Some m show ?thesis
    by (simp add: target_id_def)
qed


lemma wf_db_UpsertDevice:
  assumes "wf_db db"
  shows "wf_db (snd (UpsertDevice now p db))"
proof (cases "reachable db")
  case True
  from UpsertDevice_summary [OF assms True, of now p] show ?thesis
    by auto
next
  case False
  then show ?thesis
    using assms by (simp add: UpsertDevice_def create_or_update_def first_by_ip_def)
qed

lemma wf_db_SaveMetrics:
  assumes "wf_db db"
  shows "wf_db (snd (SaveMetrics now i m db))"
proof (cases "reachable db")
  case True
  let ?db1 = "db\<lparr>metrics := metrics db @ [m\<lparr>m_DeviceID := i, m_ReportedAt := now, m_ID := next_metrics_id db\<rparr>],
                  next_metrics_id := Suc (next_metrics_id db)\<rparr>"
  have "wf_db ?db1"
    using assms by (simp add: wf_db_def)
  moreover have "same_frame ?db1 (update_device ?db1 i (set_online now))"
    by (rule same_frame_update) (simp_all add: set_online_def)
  ultimately have "wf_db (update_device ?db1 i (set_online now))"
    by (blast intro: wf_db_same_frame)
  with True show ?thesis
    by (simp add: SaveMetrics_def create_metrics_def Let_def)
next
  case False
  then show ?thesis
    using assms by (simp add: SaveMetrics_def create_metrics_def)
qed

text \<open>Every store the resolver reaches from the empty one is well formed.\<close>

lemma wf_db_run:
  "wf_db db \<Longrightarrow> wf_db (run cs db)"
proof (induction cs arbitrary: db)
  case Nil
  then show ?case by simp
next
  case (Cons c cs)
  then show ?case
    by (cases c) (simp_all add: wf_db_UpsertDevice wf_db_SaveMetrics)
qed

text \<open>The concrete stores are stores the resolver reaches.\<close>

lemma dbGA_reached: "run [Upsert 1 reportG, Upsert 2 reportA] empty_db = dbGA"
  by code_simp

lemma dbTree_reached:
  "run [Upsert 1 reportG, Upsert 2 reportA, Upsert 3 reportC, Upsert 4 reportB] empty_db = dbTree"
  by code_simp

section \<open>Server: lemmas about the tree builder\<close>

lemma count_list_concat_map:
  "count_list (concat (map f ks)) j = sum_list (map (\<lambda>k. count_list (f k) j) ks)"
  by (induction ks) simp_all

lemma length_filter_disj:
  assumes "\<And>x. x \<in> set xs \<Longrightarrow> \<not> (P x \<and> Q x)"
  shows "length (filter (\<lambda>x. P x \<or> Q x) xs) = length (filter P xs) + length (filter Q xs)"
  using assms by (induction xs) auto

lemma sum_hits:
  assumes "distinct cs"
  shows "sum_list (map (\<lambda>c. length (filter (\<lambda>i. f i = Some c) ns)) cs)
       = length (filter (\<lambda>i. \<exists>c\<in>set cs. f i = Some c) ns)"
  using assms
proof (induction cs)
  case Nil
  then show ?case by simp
next
  case (Cons c cs)
  have "length (filter (\<lambda>i. f i = Some c \<or> (\<exists>c'\<in>set cs. f i = Some c')) ns)
      = length (filter (\<lambda>i. f i = Some c) ns) + length (filter (\<lambda>i. \<exists>c'\<in>set cs. f i = Some c') ns)"
    by (rule length_filter_disj) (use Cons.prems in auto)
  with Cons show ?case by simp
qed

lemma anc_Suc_shift:
  "anc pp (Suc i) j = (case pp j of None \<Rightarrow> None | Some p \<Rightarrow> anc pp i p)"
  by (induction i) (simp_all split: option.splits)

lemma anc_in:
  assumes "\<And>c k. pp c = Some k \<Longrightarrow> k \<in> S" and "j \<in> S" and "anc pp i j = Some c"
  shows "c \<in> S"
  using assms(2,3) by (cases i) (auto dest: assms(1) split: option.splits)

lemma hits_Suc:
  "hits pp (Suc n) j k = (if j = k then 1 else 0)
       + length (filter (\<lambda>i. anc pp (Suc i) j = Some k) [0..<n])"
proof -
  have "[0..<Suc n] = 0 # map Suc [0..<n]"
    by (simp add: upt_conv_Cons map_Suc_upt del: upt_Suc)
  then show ?thesis
    by (simp add: hits_def filter_map o_def del: upt_Suc anc.simps(2))
qed

lemma count_unfold:
  assumes ch: "\<And>k. ch k = filter (\<lambda>c. pp c = Some k) ord" and d: "distinct ord"
    and closed: "\<And>c k. pp c = Some k \<Longrightarrow> k \<in> set ord" and j: "j \<in> set ord"
  shows "count_list (unfold_ids n ch ks) j = sum_list (map (hits pp n j) ks)"
proof (induction n arbitrary: ks)
  case 0
  then show ?case by (simp add: hits_def)
next
  case (Suc n)
  have step: "count_list (k # unfold_ids n ch (ch k)) j = hits pp (Suc n) j k" for k
  proof -
    have "sum_list (map (hits pp n j) (ch k))
        = length (filter (\<lambda>i. \<exists>c\<in>set (ch k). anc pp i j = Some c) [0..<n])"
      unfolding hits_def by (rule sum_hits) (simp add: ch d)
    also have "(\<lambda>i. \<exists>c\<in>set (ch k). anc pp i j = Some c) = (\<lambda>i. anc pp (Suc i) j = Some k)"
    proof (rule ext)
      fix i
      show "(\<exists>c\<in>set (ch k). anc pp i j = Some c) = (anc pp (Suc i) j = Some k)"
        using anc_in [of pp "set ord" j i, OF closed j]
        by (auto simp: ch split: option.splits)
    qed
    finally have e: "sum_list (map (hits pp n j) (ch k))
        = length (filter (\<lambda>i. anc pp (Suc i) j = Some k) [0..<n])" .
    have "count_list (k # unfold_ids n ch (ch k)) j
        = (if j = k then 1 else 0) + count_list (unfold_ids n ch (ch k)) j"
      by simp
    also have "\<dots> = (if j = k then 1 else 0) + sum_list (map (hits pp n j) (ch k))"
      by (simp only: Suc.IH)
    also have "\<dots> = hits pp (Suc n) j k"
      by (simp only: e hits_Suc)
    finally show ?thesis .
  qed
  show ?case
    by (simp add: count_list_concat_map step del: count_list.simps)
qed

lemma anc_None_after:
  assumes "anc pp i j = Some r" and "pp r = None"
  shows "anc pp (i + Suc m) j = None"
  using assms by (induction m) simp_all

lemma top_unique:
  assumes "anc pp i j = Some r" "pp r = None" "anc pp i' j = Some r'" "pp r' = None"
  shows "i = i'"
proof (rule ccontr)
  assume "i \<noteq> i'"
  then have "i < i' \<or> i' < i" by auto
  then show False
  proof
    assume "i < i'"
    then obtain m where "i' = i + Suc m"
      by (auto dest: less_imp_Suc_add)
    with anc_None_after [OF assms(1,2), of m] assms(3) show False by simp
  next
    assume "i' < i"
    then obtain m where "i = i' + Suc m"
      by (auto dest: less_imp_Suc_add)
    with anc_None_after [OF assms(3,4), of m] assms(1) show False by simp
  qed
qed

lemma reaches_root_top:
  "reaches_root n pp j \<Longrightarrow> \<exists>i r. i \<le> n \<and> anc pp i j = Some r \<and> pp r = None"
proof (induction n arbitrary: j)
  case 0
  then have "anc pp 0 j = Some j \<and> pp j = None" by simp
  then show ?case by blast
next
  case (Suc n)
  show ?case
  proof (cases "pp j")
    case None
    then have "anc pp 0 j = Some j \<and> pp j = None" by simp
    then show ?thesis by blast
  next
    case (Some p)
    with Suc.prems have "reaches_root n pp p" by simp
    from Suc.IH [OF this] obtain i r where "i \<le> n" and "anc pp i p = Some r" and "pp r = None"
      by blast
    with Some have "Suc i \<le> Suc n \<and> anc pp (Suc i) j = Some r \<and> pp r = None"
      by (simp add: anc_Suc_shift del: anc.simps(2))
    then show ?thesis by blast
  qed
qed

lemma length_filter_one:
  assumes "distinct xs" and "x \<in> set xs" and "P x" and "\<And>y. y \<in> set xs \<Longrightarrow> P y \<Longrightarrow> y = x"
  shows "length (filter P xs) = 1"
  using assms(1,2,4)
proof (induction xs)
  case Nil
  then show ?case by simp
next
  case (Cons a xs)
  show ?case
  proof (cases "a = x")
    case True
    with Cons.prems(1) have "x \<notin> set xs" by simp
    with Cons.prems(3) have "filter P xs = []"
      by (auto simp: filter_empty_conv)
    with True assms(3) show ?thesis by simp
  next
    case False
    with Cons.prems(3) [of a] have "\<not> P a" by auto
    moreover from False Cons.prems(2) have "x \<in> set xs" by simp
    ultimately show ?thesis
      using Cons.IH Cons.prems(1,3) by simp
  qed
qed

lemma count_le_one_distinct:
  "(\<And>x. x \<in> set xs \<Longrightarrow> count_list xs x \<le> 1) \<Longrightarrow> distinct xs"
proof (induction xs)
  case Nil
  then show ?case by simp
next
  case (Cons a xs)
  from Cons.prems [of a] have "count_list xs a = 0" by simp
  then have "a \<notin> set xs" by (simp add: count_list_0_iff)
  moreover have "count_list xs x \<le> 1" if "x \<in> set xs" for x
    using Cons.prems [of x] that by (simp split: if_splits)
  ultimately show ?case using Cons.IH by simp
qed

lemma set_unfold_ids:
  assumes "\<And>k. set (ch k) \<subseteq> S"
  shows "set ks \<subseteq> S \<Longrightarrow> set (unfold_ids n ch ks) \<subseteq> S"
proof (induction n arbitrary: ks)
  case 0
  then show ?case by simp
next
  case (Suc n)
  have "set (unfold_ids n ch (ch k)) \<subseteq> S" for k
    by (rule Suc.IH) (rule assms)
  with Suc.prems show ?case by auto
qed

lemma unfold_once:
  assumes ch: "\<And>k. ch k = filter (\<lambda>c. pp c = Some k) ord" and d: "distinct ord"
    and closed: "\<And>c k. pp c = Some k \<Longrightarrow> k \<in> set ord"
    and roots: "roots = filter (\<lambda>c. pp c = None) ord"
    and acyc: "\<And>j. j \<in> set ord \<Longrightarrow> reaches_root m pp j" and mn: "m < n"
  shows "distinct (unfold_ids n ch roots) \<and> set (unfold_ids n ch roots) = set ord"
proof -
  have cnt: "count_list (unfold_ids n ch roots) j = 1" if j: "j \<in> set ord" for j
  proof -
    from reaches_root_top [OF acyc [OF j]] obtain i r
      where i: "i \<le> m" and a: "anc pp i j = Some r" and r: "pp r = None"
      by blast
    have "count_list (unfold_ids n ch roots) j = sum_list (map (hits pp n j) roots)"
      by (rule count_unfold [OF ch d closed j])
    also have "\<dots> = length (filter (\<lambda>i. \<exists>c\<in>set roots. anc pp i j = Some c) [0..<n])"
      unfolding hits_def by (rule sum_hits) (simp add: roots d)
    also have "(\<lambda>i. \<exists>c\<in>set roots. anc pp i j = Some c)
             = (\<lambda>i. \<exists>c. anc pp i j = Some c \<and> pp c = None)"
    proof (rule ext)
      fix i
      show "(\<exists>c\<in>set roots. anc pp i j = Some c) = (\<exists>c. anc pp i j = Some c \<and> pp c = None)"
        using anc_in [of pp "set ord" j i, OF closed j] by (auto simp: roots)
    qed
    also have "length (filter (\<lambda>i. \<exists>c. anc pp i j = Some c \<and> pp c = None) [0..<n]) = 1"
    proof (rule length_filter_one [where x = i])
      show "distinct [0..<n]" by simp
      show "i \<in> set [0..<n]" using i mn by simp
      show "\<exists>c. anc pp i j = Some c \<and> pp c = None" using a r by blast
      show "y = i" if "\<exists>c. anc pp y j = Some c \<and> pp c = None" for y
        using that a r by (blast intro: top_unique)
    qed
    finally show ?thesis .
  qed
  have sub: "set (unfold_ids n ch roots) \<subseteq> set ord"
    by (rule set_unfold_ids) (auto simp: ch roots)
  have "distinct (unfold_ids n ch roots)"
    by (rule count_le_one_distinct) (use cnt sub in auto)
  moreover have "set ord \<subseteq> set (unfold_ids n ch roots)"
  proof
    fix j assume "j \<in> set ord"
    then have "count_list (unfold_ids n ch roots) j \<noteq> 0" by (simp add: cnt)
    then show "j \<in> set (unfold_ids n ch roots)" by (simp add: count_list_0_iff)
  qed
  ultimately show ?thesis using sub by blast
qed

lemma node_parent_upd:
  assumes "nm p = Some parent"
  shows "node_parent (nm(p \<mapsto> parent\<lparr>t_Children := c\<rparr>)) = node_parent nm"
proof (rule ext)
  fix j
  show "node_parent (nm(p \<mapsto> parent\<lparr>t_Children := c\<rparr>)) j = node_parent nm j"
    using assms by (auto simp: node_parent_def split: option.splits)
qed

lemma wired_map_Nil [simp]: "wired_map [] nm = nm"
proof (rule ext)
  fix k show "wired_map [] nm k = nm k"
    by (cases "nm k") (simp_all add: wired_map_def)
qed

lemma wired_map_skip:
  assumes "\<And>k'. node_parent nm k \<noteq> Some k'"
  shows "wired_map (k # ks) nm = wired_map ks nm"
  using assms by (simp add: wired_map_def)

lemma wired_map_child:
  assumes "nm p = Some parent" and "node_parent nm k = Some p"
  shows "wired_map ks (nm(p \<mapsto> parent\<lparr>t_Children := t_Children parent @ [k]\<rparr>))
       = wired_map (k # ks) nm"
proof (rule ext)
  fix k'
  show "wired_map ks (nm(p \<mapsto> parent\<lparr>t_Children := t_Children parent @ [k]\<rparr>)) k'
      = wired_map (k # ks) nm k'"
    using assms by (cases "nm k'") (auto simp: wired_map_def node_parent_upd)
qed

lemma wire_children_char:
  "wire_children ks (roots, nm)
     = (roots @ filter (\<lambda>j. nm j \<noteq> None \<and> node_parent nm j = None) ks, wired_map ks nm)"
proof (induction ks arbitrary: roots nm)
  case Nil
  then show ?case by simp
next
  case (Cons k ks)
  show ?case
  proof (cases "nm k")
    case None
    then have "node_parent nm k \<noteq> Some k'" for k'
      by (simp add: node_parent_def)
    with None Cons.IH show ?thesis
      by (simp add: wired_map_skip)
  next
    case (Some node)
    show ?thesis
    proof (cases "t_ParentID node")
      case None
      with Some have np: "node_parent nm k = None"
        by (simp add: node_parent_def)
      then have "wired_map (k # ks) nm = wired_map ks nm"
        by (simp add: wired_map_skip)
      with Some None np Cons.IH show ?thesis
        by simp
    next
      case pn: (Some p)
      show ?thesis
      proof (cases "nm p")
        case None
        with Some pn have np: "node_parent nm k = None"
          by (simp add: node_parent_def)
        then have "wired_map (k # ks) nm = wired_map ks nm"
          by (simp add: wired_map_skip)
        with Some pn None np Cons.IH show ?thesis
          by simp
      next
        case par: (Some parent)
        let ?nm2 = "nm(p \<mapsto> parent\<lparr>t_Children := t_Children parent @ [k]\<rparr>)"
        from Some pn par have np: "node_parent nm k = Some p"
          by (simp add: node_parent_def)
        have dom2: "(?nm2 j \<noteq> None) = (nm j \<noteq> None)" for j
          using par by simp
        have "wire_children (k # ks) (roots, nm) = wire_children ks (roots, ?nm2)"
          using Some pn par by simp
        also have "\<dots> = (roots @ filter (\<lambda>j. ?nm2 j \<noteq> None \<and> node_parent ?nm2 j = None) ks,
                           wired_map ks ?nm2)"
          by (rule Cons.IH)
        also have "\<dots> = (roots @ filter (\<lambda>j. nm j \<noteq> None \<and> node_parent nm j = None) (k # ks),
                           wired_map (k # ks) nm)"
        proof -
          have a: "node_parent ?nm2 = node_parent nm"
            using par by (rule node_parent_upd)
          have b: "wired_map ks ?nm2 = wired_map (k # ks) nm"
            using par np by (rule wired_map_child)
          show ?thesis
            using np by (simp only: dom2 a b) simp
        qed
        finally show ?thesis .
      qed
    qed
  qed
qed

lemma build_nodeMap_apply:
  "distinct (map ID ds) \<Longrightarrow>
   build_nodeMap ds nm k = (case find (\<lambda>d. ID d = k) ds of None \<Rightarrow> nm k | Some d \<Rightarrow> Some (node_of d))"
proof (induction ds arbitrary: nm)
  case Nil
  then show ?case by simp
next
  case (Cons d ds)
  show ?case
  proof (cases "ID d = k")
    case True
    with Cons.prems have "k \<notin> set (map ID ds)" by auto
    then have "find (\<lambda>d. ID d = k) ds = None"
      by (auto simp: find_None_iff)
    with True Cons show ?thesis by simp
  next
    case False
    with Cons show ?thesis by (simp split: option.splits)
  qed
qed

lemma find_ID_None_iff:
  "(find (\<lambda>d. ID d = k) ds = None) = (k \<notin> set (map ID ds))"
  by (auto simp: find_None_iff)

lemma build_nodeMap_dom:
  assumes "distinct (map ID devs)"
  shows "(build_nodeMap devs Map.empty p = None) = (p \<notin> set (map ID devs))"
proof (cases "find (\<lambda>d. ID d = p) devs")
  case None
  then show ?thesis
    using find_ID_None_iff [of p devs] by (simp add: build_nodeMap_apply [OF assms])
next
  case (Some d)
  then show ?thesis
    using find_ID_None_iff [of p devs] by (simp add: build_nodeMap_apply [OF assms])
qed

lemma node_parent_build:
  assumes "distinct (map ID devs)"
  shows "node_parent (build_nodeMap devs Map.empty) = present_parent devs"
proof (rule ext)
  fix j
  have dom: "(build_nodeMap devs Map.empty p = None) = (p \<notin> set (map ID devs))" for p
    by (rule build_nodeMap_dom [OF assms])
  show "node_parent (build_nodeMap devs Map.empty) j = present_parent devs j"
    unfolding node_parent_def present_parent_def dom
    by (simp add: build_nodeMap_apply [OF assms] node_of_def split: option.splits)
qed

lemma present_parent_loaded:
  "present_parent devs j = Some p \<Longrightarrow> j \<in> set (map ID devs) \<and> p \<in> set (map ID devs)"
  using find_ID_None_iff [of j devs]
  by (auto simp: present_parent_def split: option.splits if_splits)

text \<open>What \<open>GetDeviceTree\<close> returns, in terms of the devices loaded and the order of the visit.\<close>

lemma GetDeviceTree_char:
  assumes "reachable db" and "distinct (map ID (devices db))"
    and "range_order order (devices db)"
  shows "\<exists>roots nm. GetDeviceTree order db = Inr (roots, nm)
          \<and> roots = filter (\<lambda>j. present_parent (devices db) j = None) order
          \<and> (\<forall>k. children_of nm k = filter (\<lambda>j. present_parent (devices db) j = Some k) order)"
proof -
  let ?devs = "devices db"
  let ?nm0 = "build_nodeMap ?devs Map.empty"
  have np: "node_parent ?nm0 = present_parent ?devs"
    by (rule node_parent_build [OF assms(2)])
  have dom: "(?nm0 p \<noteq> None) = (p \<in> set (map ID ?devs))" for p
    by (simp only: build_nodeMap_dom [OF assms(2)] not_not)
  have g: "GetDeviceTree order db
         = Inr (filter (\<lambda>j. ?nm0 j \<noteq> None \<and> node_parent ?nm0 j = None) order, wired_map order ?nm0)"
    using assms(1) by (simp add: GetDeviceTree_def find_devices_def wire_children_char)
  have "filter (\<lambda>j. ?nm0 j \<noteq> None \<and> node_parent ?nm0 j = None) order
      = filter (\<lambda>j. present_parent ?devs j = None) order"
    using assms(3) by (intro filter_cong) (auto simp only: dom np range_order_def)
  moreover have "children_of (wired_map order ?nm0) k
      = filter (\<lambda>j. present_parent ?devs j = Some k) order" for k
  proof (cases "?nm0 k")
    case None
    then have "k \<notin> set (map ID ?devs)" using dom [of k] by simp
    then have "present_parent ?devs j \<noteq> Some k" for j
      using present_parent_loaded [of ?devs j k] by blast
    with None show ?thesis
      by (simp add: children_of_def wired_map_def)
  next
    case (Some n)
    then have "n = node_of (the (find (\<lambda>d. ID d = k) ?devs))"
      by (simp add: build_nodeMap_apply [OF assms(2)] split: option.splits)
    then have "t_Children n = []" by (simp add: node_of_def)
    with Some show ?thesis
      by (simp add: children_of_def wired_map_def np)
  qed
  ultimately show ?thesis using g by simp
qed

lemma present_parent_iff:
  assumes "distinct (map ID devs)" and "p \<in> set (map ID devs)"
  shows "(present_parent devs j = Some p) = (\<exists>d \<in> set devs. ID d = j \<and> ParentID d = Some p)"
proof
  assume "present_parent devs j = Some p"
  then obtain d where "find (\<lambda>x. ID x = j) devs = Some d" and "ParentID d = Some p"
    by (auto simp: present_parent_def split: option.splits if_splits)
  then show "\<exists>d \<in> set devs. ID d = j \<and> ParentID d = Some p"
    by (auto simp: find_Some_iff)
next
  assume "\<exists>d \<in> set devs. ID d = j \<and> ParentID d = Some p"
  then obtain d where d: "d \<in> set devs" "ID d = j" "ParentID d = Some p"
    by blast
  have "distinct (map ID xs) \<Longrightarrow> d \<in> set xs \<Longrightarrow> find (\<lambda>x. ID x = ID d) xs = Some d" for xs
    by (induction xs) (auto simp: rev_image_eqI)
  from this [OF assms(1) d(1)] d(2,3) assms(2) show "present_parent devs j = Some p"
    by (simp add: present_parent_def)
qed

section \<open>Agent: theorems\<close>

text \<open>
  C7.  The first \<open>Collect\<close> of a freshly constructed collector returns a snapshot,
  and its receive and transmit rates are exactly 0, whatever the host reports.
\<close>

theorem first_collect_zero_rates:
  "\<exists>s c'. Collector_Collect h NewCollector = (Inr s, c') \<and> s_RxBytes s = 0 \<and> s_TxBytes s = 0"
  by (simp add: Collector_Collect_def netBandwidth_def NewCollector_def Let_def
      split: prod.splits sum.splits list.splits)

theorem first_collect_zero_rates_witness:
  "\<exists>s c'. Collector_Collect (host0\<lparr>h_IOCounters :=
       Inr [\<lparr>io_Name = ''all'', io_BytesSent = 123456, io_BytesRecv = 987654\<rparr>]\<rparr>) NewCollector
     = (Inr s, c') \<and> s_RxBytes s = 0 \<and> s_TxBytes s = 0"
  by (rule first_collect_zero_rates)

text \<open>
  C10.  When the read of the interface counters fails or returns no entry, the rates
  of that call are 0 and the collector is left exactly as it was (previous counters,
  previous timestamp and the initialized flag), so that any later call computes what it
  would have computed had the failed call not happened: its rate is taken over the
  time since the last successful read.
\<close>

theorem failed_read_keeps_baseline:
  assumes "h_IOCounters h = Inl e \<or> h_IOCounters h = Inr []"
  shows "netBandwidth h c = ((0, 0), c)
       \<and> (\<exists>s. Collector_Collect h c = (Inr s, c) \<and> s_RxBytes s = 0 \<and> s_TxBytes s = 0)
       \<and> netBandwidth h' (snd (Collector_Collect h c)) = netBandwidth h' c"
proof -
  have nb: "netBandwidth h c = ((0, 0), c)"
    using assms by (auto simp: netBandwidth_def)
  have col: "\<exists>s. Collector_Collect h c = (Inr s, c) \<and> s_RxBytes s = 0 \<and> s_TxBytes s = 0"
    by (simp add: Collector_Collect_def nb split: prod.splits)
  then have "snd (Collector_Collect h c) = c"
    by auto
  with nb col show ?thesis
    by simp
qed

theorem failed_read_keeps_baseline_witness:
  "netBandwidth (host0\<lparr>h_IOCounters := Inl ErrOS\<rparr>)
       \<lparr>prevRx = 500, prevTx = 700, prevTime = 10, initialized = True\<rparr>
     = ((0, 0), \<lparr>prevRx = 500, prevTx = 700, prevTime = 10, initialized = True\<rparr>)
   \<and> (\<exists>s. Collector_Collect (host0\<lparr>h_IOCounters := Inl ErrOS\<rparr>)
            \<lparr>prevRx = 500, prevTx = 700, prevTime = 10, initialized = True\<rparr>
          = (Inr s, \<lparr>prevRx = 500, prevTx = 700, prevTime = 10, initialized = True\<rparr>)
          \<and> s_RxBytes s = 0 \<and> s_TxBytes s = 0)
   \<and> netBandwidth host0 (snd (Collector_Collect (host0\<lparr>h_IOCounters := Inl ErrOS\<rparr>)
            \<lparr>prevRx = 500, prevTx = 700, prevTime = 10, initialized = True\<rparr>))
       = netBandwidth host0 \<lparr>prevRx = 500, prevTx = 700, prevTime = 10, initialized = True\<rparr>"
  by (rule failed_read_keeps_baseline [of "host0\<lparr>h_IOCounters := Inl ErrOS\<rparr>" ErrOS]) simp

text \<open>
  C3.  The claim: when a counter is smaller than at the previous call, the rate of
  that direction is 0.  The collector evaluated where both counters have fallen from
  2048 to 0 and 32 seconds have passed: the unsigned difference wraps around to
  \<open>2^64 - 2048\<close>, the quotient fits in an \<open>int64\<close>, the test for a negative rate
  does not fire, and the rate returned is \<open>2^59 - 64\<close> bytes per second.
\<close>

theorem counter_reset_rate:
  "fst (netBandwidth
      (host0\<lparr>h_IOCounters := Inr [\<lparr>io_Name = ''all'', io_BytesSent = 0, io_BytesRecv = 0\<rparr>],
             h_now := 32000000000\<rparr>)
      \<lparr>prevRx = 2048, prevTx = 2048, prevTime = 0, initialized = True\<rparr>)
   = (576460752303423424, 576460752303423424)"
  by code_simp




section \<open>Server: theorems about the resolver\<close>



text \<open>
  C2, as the code has it.  From an empty store, after every sequence of calls of
  \<open>UpsertDevice\<close> and \<open>SaveMetrics\<close> in which no report names the identifier of
  its own device as explicit parent, and after every prefix of such a sequence, no
  device has itself as parent.  Reports whose gateway address is the device's own
  address are among those sequences.
\<close>

theorem no_self_parent_without_explicit_self:
  assumes "devices db = []" and "explicit_not_self cs db"
  shows "no_self_parent (run (take n cs) db)"
proof -
  from assms(1) have "no_self_parent db"
    by (simp add: no_self_parent_def)
  then show ?thesis
    using explicit_not_self_take [OF assms(2)] by (rule nsp_run)
qed

text \<open>C2 on two reports of a device that gives its own address as gateway.\<close>

theorem no_self_parent_without_explicit_self_witness:
  "no_self_parent (run (take 2 [Upsert 5 (reportA\<lparr>p_GatewayIP := ''10.0.0.2''\<rparr>),
                             Upsert 9 (reportA\<lparr>p_GatewayIP := ''10.0.0.2''\<rparr>)]) empty_db)"
  by (rule no_self_parent_without_explicit_self) (simp add: empty_db_def, code_simp)

text \<open>
  C2, as the claim states it, fails: a device registers, receives identifier 1, and
  reports again with explicit parent 1.  The guard against self-reference sits in
  \<open>wireParent\<close> alone.
\<close>

theorem explicit_self_parent_counterexample:
  "\<not> no_self_parent (run [Upsert 5 reportA, Upsert 9 (reportA\<lparr>p_ParentID := Some 1\<rparr>)] empty_db)"
  by code_simp






section \<open>Server: theorems about the tree builder\<close>

text \<open>
  C6, as the code has it.  For every loaded device set (identifiers distinct, visited
  by \<open>range\<close> in any order), \<open>GetDeviceTree\<close> returns a forest in which every
  device whose parent reference names an identifier that is not loaded is a root; and
  if the parent references among the loaded devices contain no cycle, then the
  unfolding of the forest, to any depth beyond the number of devices, shows every
  loaded device exactly once.
\<close>

theorem forest_holds_each_device_once:
  assumes "reachable db" and "distinct (map ID (devices db))"
    and "range_order order (devices db)"
  shows "\<exists>forest. GetDeviceTree order db = Inr forest
          \<and> (\<forall>d \<in> set (devices db). \<forall>p. ParentID d = Some p \<and> p \<notin> set (map ID (devices db))
                \<longrightarrow> ID d \<in> set (fst forest))
          \<and> (acyclic_parents (devices db) \<longrightarrow>
               (\<forall>n. length (devices db) < n \<longrightarrow>
                  distinct (forest_ids n forest)
                  \<and> set (forest_ids n forest) = set (map ID (devices db))))"
proof -
  let ?devs = "devices db"
  let ?pp = "present_parent ?devs"
  from GetDeviceTree_char [OF assms]
  obtain roots nm where g: "GetDeviceTree order db = Inr (roots, nm)"
    and roots: "roots = filter (\<lambda>j. ?pp j = None) order"
    and ch: "\<And>k. children_of nm k = filter (\<lambda>j. ?pp j = Some k) order"
    by blast
  from assms(3) have d: "distinct order" and so: "set order = set (map ID ?devs)"
    by (simp_all add: range_order_def)
  have orphan: "ID x \<in> set roots"
    if "x \<in> set ?devs" and "ParentID x = Some p" and "p \<notin> set (map ID ?devs)" for x p
  proof -
    from that(1) assms(2) have "device_by_id db (ID x) = Some x"
      by (simp add: device_by_id_mem)
    with that(2,3) have "?pp (ID x) = None"
      by (simp add: present_parent_def device_by_id_def)
    moreover from that(1) so have "ID x \<in> set order" by simp
    ultimately show ?thesis by (simp add: roots)
  qed
  have once: "distinct (forest_ids n (roots, nm)) \<and> set (forest_ids n (roots, nm)) = set (map ID ?devs)"
    if ac: "acyclic_parents ?devs" and n: "length ?devs < n" for n
  proof -
    have closed: "k \<in> set order" if "?pp c = Some k" for c k
      using present_parent_loaded [OF that] so by simp
    have reach: "reaches_root (length ?devs) ?pp j" if "j \<in> set order" for j
      using ac that so by (auto simp: acyclic_parents_def list_all_iff)
    from unfold_once [of "children_of nm" ?pp order roots "length ?devs" n,
        OF ch d closed roots reach n]
    show ?thesis by (simp add: forest_ids_def so)
  qed
  from g orphan once show ?thesis
    by (intro exI [of _ "(roots, nm)"]) auto
qed

text \<open>
  C6 on four devices: the gateway 1, its children 2 and 3, and device 4 whose parent 7
  is not loaded.
\<close>

theorem forest_holds_each_device_once_witness:
  "\<exists>forest. GetDeviceTree [4, 3, 2, 1] dbTree = Inr forest \<and> 4 \<in> set (fst forest)
      \<and> distinct (forest_ids 5 forest) \<and> set (forest_ids 5 forest) = {1, 2, 3, 4}"
proof -
  have r: "reachable dbTree" by (simp add: dbTree_def)
  have d: "distinct (map ID (devices dbTree))"
    by (simp add: dbTree_def devG_def devA_def devC_def devB_def)
  have o: "range_order [4, 3, 2, 1] (devices dbTree)"
    by (auto simp add: range_order_def dbTree_def devG_def devA_def devC_def devB_def)
  have a: "acyclic_parents (devices dbTree)" by code_simp
  from forest_holds_each_device_once [OF r d o] a show ?thesis
    by (auto simp add: dbTree_def devG_def devA_def devC_def devB_def)
qed

text \<open>
  C6, as the claim states it, fails on a store the resolver itself produces: A
  registers with B's address as gateway, B registers with A's address as gateway, A
  registers again.  Each is now the other's parent, neither is a root, and the forest
  returned is empty: both devices are left out.
\<close>

theorem cyclic_parents_forest_counterexample:
  "map ID (devices (run mutual_gateways empty_db)) = [1, 2]
   \<and> range_order [1, 2] (devices (run mutual_gateways empty_db))
   \<and> map_sum id fst (GetDeviceTree [1, 2] (run mutual_gateways empty_db)) = Inr []
   \<and> map_sum id (forest_ids 3) (GetDeviceTree [1, 2] (run mutual_gateways empty_db)) = Inr []"
  by code_simp

text \<open>
  C8, as the code has it.  The child list of every loaded device consists of the
  loaded devices whose parent reference names it, each once, in the order in which
  \<open>range\<close> visits \<open>nodeMap\<close>; it is in load order when that visit happens to
  follow the load order.
\<close>

theorem children_in_visit_order:
  assumes "reachable db" and "distinct (map ID (devices db))"
    and "range_order order (devices db)"
  shows "\<exists>roots nm. GetDeviceTree order db = Inr (roots, nm)
          \<and> (\<forall>p \<in> set (map ID (devices db)).
                children_of nm p
                  = filter (\<lambda>j. \<exists>d \<in> set (devices db). ID d = j \<and> ParentID d = Some p) order
                \<and> distinct (children_of nm p)
                \<and> set (children_of nm p)
                  = set (map ID (filter (\<lambda>d. ParentID d = Some p) (devices db))))
          \<and> (order = map ID (devices db) \<longrightarrow>
               (\<forall>p \<in> set (map ID (devices db)).
                  children_of nm p = map ID (filter (\<lambda>d. ParentID d = Some p) (devices db))))"
proof -
  let ?devs = "devices db"
  from GetDeviceTree_char [OF assms]
  obtain roots nm where g: "GetDeviceTree order db = Inr (roots, nm)"
    and ch: "\<forall>k. children_of nm k = filter (\<lambda>j. present_parent ?devs j = Some k) order"
    by blast
  from assms(3) have d: "distinct order" and so: "set order = set (map ID ?devs)"
    by (simp_all add: range_order_def)
  have visit: "children_of nm p
      = filter (\<lambda>j. \<exists>d \<in> set ?devs. ID d = j \<and> ParentID d = Some p) order"
    if p: "p \<in> set (map ID ?devs)" for p
    by (simp only: ch present_parent_iff [OF assms(2) p])
  have dist: "distinct (children_of nm p)" if p: "p \<in> set (map ID ?devs)" for p
    using d by (simp add: visit [OF p])
  have same: "set (children_of nm p) = set (map ID (filter (\<lambda>d. ParentID d = Some p) ?devs))"
    if p: "p \<in> set (map ID ?devs)" for p
  proof -
    have "set (children_of nm p)
        = {j \<in> set order. \<exists>d \<in> set ?devs. ID d = j \<and> ParentID d = Some p}"
      by (simp add: visit [OF p])
    also have "\<dots> = {j. \<exists>d \<in> set ?devs. ID d = j \<and> ParentID d = Some p}"
      using so by auto
    also have "\<dots> = set (map ID (filter (\<lambda>d. ParentID d = Some p) ?devs))"
      by auto
    finally show ?thesis .
  qed
  have load: "children_of nm p = map ID (filter (\<lambda>d. ParentID d = Some p) ?devs)"
    if p: "p \<in> set (map ID ?devs)" and o: "order = map ID ?devs" for p
  proof -
    have inj: "inj_on ID (set ?devs)"
      using assms(2) by (simp add: distinct_map)
    have "filter (\<lambda>j. \<exists>d \<in> set ?devs. ID d = j \<and> ParentID d = Some p) (map ID ?devs)
        = map ID (filter (\<lambda>x. \<exists>d \<in> set ?devs. ID d = ID x \<and> ParentID d = Some p) ?devs)"
      by (simp add: filter_map o_def)
    also have "filter (\<lambda>x. \<exists>d \<in> set ?devs. ID d = ID x \<and> ParentID d = Some p) ?devs
        = filter (\<lambda>d. ParentID d = Some p) ?devs"
      by (rule filter_cong) (use inj in \<open>auto dest: inj_onD\<close>)
    finally show ?thesis
      using visit [OF p] o by simp
  qed
  from g visit dist same load show ?thesis
    by blast
qed

text \<open>C8 on the four devices, visited in the order 4, 3, 2, 1.\<close>

theorem children_in_visit_order_witness:
  "\<exists>roots nm. GetDeviceTree [4, 3, 2, 1] dbTree = Inr (roots, nm) \<and> children_of nm 1 = [3, 2]"
proof -
  have r: "reachable dbTree" by (simp add: dbTree_def)
  have d: "distinct (map ID (devices dbTree))"
    by (simp add: dbTree_def devG_def devA_def devC_def devB_def)
  have o: "range_order [4, 3, 2, 1] (devices dbTree)"
    by (auto simp add: range_order_def dbTree_def devG_def devA_def devC_def devB_def)
  from children_in_visit_order [OF r d o] show ?thesis
    by (auto simp add: dbTree_def devG_def devA_def devC_def devB_def)
qed

text \<open>
  C8, as the claim states it, fails: devices 2 and 3 are loaded in this order, both
  children of 1; visited in the order 4, 3, 2, 1 (an order \<open>range\<close> can take) they
  are appended as 3, 2.
\<close>

theorem children_not_in_load_order_counterexample:
  "range_order [4, 3, 2, 1] (devices dbTree)
   \<and> map_sum id (\<lambda>forest. children_of (snd forest) 1) (GetDeviceTree [4, 3, 2, 1] dbTree)
     = Inr [3, 2]
   \<and> map ID (filter (\<lambda>d. ParentID d = Some 1) (devices dbTree)) = [2, 3]"
  by code_simp

end
